theory Spec2Isabelle
  imports Complex_Main "HOL-Library.AList"
begin

section \<open>Numbers\<close>

text \<open>
  The program is TypeScript; every \<^verbatim>\<open>number\<close> is an IEEE-754 double. This development
  reads a \<^verbatim>\<open>number\<close> as a mathematical real: there is no rounding, no NaN and no
  infinity. Every statement below is therefore a statement about the arithmetic the code
  writes down, not about the last bit of a double. Timestamps (\<^verbatim>\<open>Date.now()\<close>) are
  integers handed in by the caller of each operation.
\<close>

text \<open>
  The remainder operator \<^verbatim>\<open>x % m\<close> of JavaScript truncates the quotient toward zero, so
  the result has the sign of the dividend \<open>x\<close>: \<^verbatim>\<open>-10 % 360\<close> is \<^verbatim>\<open>-10\<close>.
\<close>

definition js_trunc :: "real \<Rightarrow> int" where
  "js_trunc q = (if q < 0 then - \<lfloor>- q\<rfloor> else \<lfloor>q\<rfloor>)"

definition js_rem :: "real \<Rightarrow> real \<Rightarrow> real" where
  "js_rem x m = x - m * of_int (js_trunc (x / m))"

text \<open>
  \<^verbatim>\<open>Math.atan2(y, x)\<close> is a function of the language's standard library, not of this
  repository. It is the angle of the point \<open>(x, y)\<close>, in \<open>(-\<pi>, \<pi>]\<close>, and \<open>0\<close> at the
  origin; it is written here by the usual case distinction over \<open>arctan\<close>.
\<close>

definition atan2 :: "real \<Rightarrow> real \<Rightarrow> real" where
  "atan2 y x =
     (if 0 < x then arctan (y / x)
      else if x < 0 then (if 0 \<le> y then arctan (y / x) + pi else arctan (y / x) - pi)
      else if 0 < y then pi / 2
      else if y < 0 then - (pi / 2)
      else 0)"

section \<open>Phase-lock synchronizer (server/phase-lock.ts)\<close>

subsection \<open>Data model\<close>

datatype health = Online | Degraded | Offline

record QueenState =
  phase :: real
  coherence :: real
  angularMomentum :: real
  torqueRedistribution :: real
  timestamp :: int

record ArmState =
  name :: string
  phase :: real
  amplitude :: real
  frequency :: real
  lastUpdate :: int
  health :: health

text \<open>
  \<^verbatim>\<open>arms\<close> is a \<^verbatim>\<open>Map<string, ArmState>\<close>. A JavaScript \<^verbatim>\<open>Map\<close> keeps its entries in
  insertion order and \<^verbatim>\<open>values()\<close> walks them in that order, so the map is an association
  list; \<open>map_of\<close> is \<^verbatim>\<open>get\<close>. The code never inserts or deletes after the constructor; it
  mutates the \<^verbatim>\<open>ArmState\<close> object an entry holds, which is \<open>AList.update\<close> at a key that
  is present (the entry keeps its position).
\<close>

record PhaseLockSynchronizer =
  arms :: "(string \<times> ArmState) list"
  queen :: QueenState
  coherenceHistory :: "real list"
  maxHistorySize :: nat

record Wobble =
  wobbleDetected :: bool
  magnitude :: real
  affectedArms :: "string list"

text \<open>
  The source file has no \<^verbatim>\<open>throw\<close>. An operation's completion is nevertheless a sum, so
  that "the call fails with an error" is a value the model can tell from a normal return:
  \<open>Inl e\<close> is an exception \<open>e\<close> reaching the caller, \<open>Inr s\<close> is a normal return in state \<open>s\<close>.
\<close>

datatype error = UnknownNodeError

subsection \<open>Constructor\<close>

text \<open>The constructor reads the clock once per object it builds; \<open>now\<close> is that reading.\<close>

definition constructor :: "int \<Rightarrow> PhaseLockSynchronizer" where
  "constructor now =
     \<lparr>arms =
        [(''qwen'', \<lparr>name = ''qwen'', phase = 0, amplitude = 1.0, frequency = 10,
                    lastUpdate = now, health = Online\<rparr>),
         (''gemma'', \<lparr>name = ''gemma'', phase = 90, amplitude = 1.0, frequency = 5,
                     lastUpdate = now, health = Online\<rparr>),
         (''deepseek'', \<lparr>name = ''deepseek'', phase = 180, amplitude = 1.0, frequency = 7,
                        lastUpdate = now, health = Online\<rparr>),
         (''os'', \<lparr>name = ''os'', phase = 270, amplitude = 1.0, frequency = 12,
                  lastUpdate = now, health = Online\<rparr>)],
      queen = \<lparr>QueenState.phase = 45, coherence = 1.0, angularMomentum = 1.0,
                torqueRedistribution = 0, timestamp = now\<rparr>,
      coherenceHistory = [],
      maxHistorySize = 100\<rparr>"

subsection \<open>Angle arithmetic\<close>

text \<open>
  \<^verbatim>\<open>angleDifference\<close> is two loops, one after the other:
  \<^verbatim>\<open>while (diff > 180) diff -= 360; while (diff < -180) diff += 360;\<close>
\<close>

function angleDifference_sub :: "real \<Rightarrow> real" where
  "angleDifference_sub diff = (if diff > 180 then angleDifference_sub (diff - 360) else diff)"
  by pat_completeness auto
termination
proof (relation "measure (\<lambda>d. nat \<lceil>d\<rceil>)")
  show "wf (measure (\<lambda>d::real. nat \<lceil>d\<rceil>))" by simp
next
  fix diff :: real
  assume "180 < diff"
  then have "0 < \<lceil>diff\<rceil>" by simp
  then show "(diff - 360, diff) \<in> measure (\<lambda>d. nat \<lceil>d\<rceil>)"
    by simp
qed

function angleDifference_add :: "real \<Rightarrow> real" where
  "angleDifference_add diff = (if diff < - 180 then angleDifference_add (diff + 360) else diff)"
  by pat_completeness auto
termination
proof (relation "measure (\<lambda>d. nat (- \<lfloor>d\<rfloor>))")
  show "wf (measure (\<lambda>d::real. nat (- \<lfloor>d\<rfloor>)))" by simp
next
  fix diff :: real
  assume "diff < - 180"
  then have "\<lfloor>diff\<rfloor> < 0" by simp
  then show "(diff + 360, diff) \<in> measure (\<lambda>d. nat (- \<lfloor>d\<rfloor>))"
    by simp
qed

declare angleDifference_sub.simps [simp del]
declare angleDifference_add.simps [simp del]

definition angleDifference :: "real \<Rightarrow> real \<Rightarrow> real" where
  "angleDifference angle1 angle2 = angleDifference_add (angleDifference_sub (angle1 - angle2))"

text \<open>
  \<^verbatim>\<open>circularMean\<close>: the loop accumulates \<^verbatim>\<open>sinSum\<close> and \<^verbatim>\<open>cosSum\<close>; the pair of
  accumulators is the loop state.
\<close>

definition circularMean_step :: "real \<times> real \<Rightarrow> real \<Rightarrow> real \<times> real" where
  "circularMean_step acc angle =
     (let rad = (angle * pi) / 180
      in (fst acc + sin rad, snd acc + cos rad))"

definition circularMean :: "real list \<Rightarrow> real" where
  "circularMean angles =
     (let acc = foldl circularMean_step (0, 0) angles;
          sinSum = fst acc;
          cosSum = snd acc;
          meanRad = atan2 (sinSum / real (length angles)) (cosSum / real (length angles))
      in (meanRad * 180) / pi)"

subsection \<open>Torque redistribution\<close>

text \<open>
  The loop \<^verbatim>\<open>for (const arm of onlineArms)\<close> writes to the objects the table holds, so it
  is a pass over the table that rewrites the online entries and leaves the others alone;
  \<open>redistribute_arm\<close> is what that pass does to one entry.
\<close>

definition redistribute_arm :: "real \<Rightarrow> ArmState \<Rightarrow> ArmState" where
  "redistribute_arm redistributedPerArm arm =
     (if health arm = Online
      then arm\<lparr>amplitude := min 1.0 (amplitude arm + redistributedPerArm * 0.1)\<rparr>
      else arm)"

definition calculateTorqueRedistribution :: "PhaseLockSynchronizer \<Rightarrow> PhaseLockSynchronizer" where
  "calculateTorqueRedistribution s =
     (let armsv = map snd (arms s);
          onlineArms = filter (\<lambda>a. health a = Online) armsv;
          degradedArms = filter (\<lambda>a. health a \<noteq> Online) armsv
      in if length degradedArms = 0
         then s\<lparr>queen := (queen s)\<lparr>torqueRedistribution := 0\<rparr>\<rparr>
         else
           (let degradedLoad = foldl (\<lambda>sum a. sum + amplitude a) 0 degradedArms;
                redistributedPerArm = degradedLoad / real (max (length onlineArms) 1)
            in s\<lparr>arms := map (\<lambda>(k, a). (k, redistribute_arm redistributedPerArm a)) (arms s),
                 queen := (queen s)\<lparr>torqueRedistribution := degradedLoad\<rparr>\<rparr>))"

subsection \<open>Coherence recompute\<close>

definition adjustPhaseCoherence :: "PhaseLockSynchronizer \<Rightarrow> PhaseLockSynchronizer" where
  "adjustPhaseCoherence s =
     (let armsv = map snd (arms s);
          phaseDifferences = map (\<lambda>arm. angleDifference (ArmState.phase arm) (QueenState.phase (queen s))) armsv;
          avgDifference = foldl (\<lambda>a b. a + \<bar>b\<bar>) 0 phaseDifferences / real (length phaseDifferences);
          coherence' = max 0 (1 - avgDifference / 180);
          pushed = coherenceHistory s @ [coherence'];
          history' = (if length pushed > maxHistorySize s then tl pushed else pushed);
          totalAmplitude = foldl (\<lambda>t arm. if health arm = Online then t + amplitude arm else t) 0 armsv
      in calculateTorqueRedistribution
           (s\<lparr>queen := (queen s)\<lparr>coherence := coherence',
                                  angularMomentum := totalAmplitude / real (length armsv)\<rparr>,
              coherenceHistory := history'\<rparr>))"

subsection \<open>Node update\<close>

definition updateArmState ::
  "string \<Rightarrow> real \<Rightarrow> real \<Rightarrow> health \<Rightarrow> int \<Rightarrow> PhaseLockSynchronizer
     \<Rightarrow> error + PhaseLockSynchronizer" where
  "updateArmState armName phase' amplitude' health' now s =
     (case map_of (arms s) armName of
        None \<Rightarrow> Inr s
      | Some arm \<Rightarrow>
          Inr (adjustPhaseCoherence
                 (s\<lparr>arms := AList.update armName
                      (arm\<lparr>phase := js_rem phase' 360,
                           amplitude := max 0 (min 1 amplitude'),
                           health := health',
                           lastUpdate := now\<rparr>)
                      (arms s)\<rparr>)))"

subsection \<open>Wobble detection and self-correction\<close>

text \<open>
  Where the sines and the cosines of the phases both sum to exactly zero (the constructor's
  phases \<open>0, 90, 180, 270\<close> are such a case), the sums the code computes in doubles are tiny
  but not zero, and \<^verbatim>\<open>atan2\<close> of them is some other angle than the \<open>0\<close> it has here; the
  nodes flagged there differ. The statements below about \<^verbatim>\<open>selfCorrect\<close> hold whichever
  nodes are flagged.
\<close>

definition detectWobble :: "PhaseLockSynchronizer \<Rightarrow> Wobble" where
  "detectWobble s =
     (let armsv = map snd (arms s);
          phases = map ArmState.phase armsv;
          meanPhase = circularMean phases;
          variance = foldl (\<lambda>sum p. sum + (angleDifference p meanPhase)\<^sup>2) 0 phases
                       / real (length phases);
          wobbleMagnitude = sqrt variance
      in \<lparr>wobbleDetected = wobbleMagnitude > 30,
          magnitude = wobbleMagnitude,
          affectedArms =
            map name (filter (\<lambda>a. \<bar>angleDifference (ArmState.phase a) meanPhase\<bar> > 45) armsv)\<rparr>)"

text \<open>The body of the \<^verbatim>\<open>for (const armName of wobble.affectedArms)\<close> loop.\<close>

definition selfCorrect_arm :: "PhaseLockSynchronizer \<Rightarrow> string \<Rightarrow> PhaseLockSynchronizer" where
  "selfCorrect_arm s armName =
     (case map_of (arms s) armName of
        None \<Rightarrow> s
      | Some arm \<Rightarrow>
          (let targetPhase = QueenState.phase (queen s) + 90;
               correction = angleDifference targetPhase (ArmState.phase arm) * 0.1
           in s\<lparr>arms := AList.update armName
                   (arm\<lparr>phase := js_rem (ArmState.phase arm + correction) 360\<rparr>) (arms s)\<rparr>))"

definition selfCorrect :: "PhaseLockSynchronizer \<Rightarrow> PhaseLockSynchronizer" where
  "selfCorrect s =
     (let wobble = detectWobble s
      in if \<not> wobbleDetected wobble then s
         else adjustPhaseCoherence (foldl selfCorrect_arm s (affectedArms wobble)))"

subsection \<open>Sequences of calls\<close>

text \<open>
  The two public operations that write to the synchronizer, as values, so that a history of
  calls is a list. \<open>recomputes c s\<close> says whether the call \<open>c\<close>, made in state \<open>s\<close>, reaches
  \<^verbatim>\<open>this.adjustPhaseCoherence()\<close>: \<^verbatim>\<open>updateArmState\<close> returns before it when the name is
  unknown, \<^verbatim>\<open>selfCorrect\<close> when no wobble is detected. \<open>pushed cs s\<close> lists, in order, the
  coherence computed by each recompute of the run \<open>cs\<close> from \<open>s\<close>.
\<close>

datatype call = UpdateArm string real real health int | SelfCorrect

fun perform :: "call \<Rightarrow> PhaseLockSynchronizer \<Rightarrow> error + PhaseLockSynchronizer" where
  "perform (UpdateArm armName phase' amplitude' health' now) s =
     updateArmState armName phase' amplitude' health' now s"
| "perform SelfCorrect s = Inr (selfCorrect s)"

fun recomputes :: "call \<Rightarrow> PhaseLockSynchronizer \<Rightarrow> bool" where
  "recomputes (UpdateArm armName phase' amplitude' health' now) s =
     (map_of (arms s) armName \<noteq> None)"
| "recomputes SelfCorrect s = wobbleDetected (detectWobble s)"

fun run :: "call list \<Rightarrow> PhaseLockSynchronizer \<Rightarrow> error + PhaseLockSynchronizer" where
  "run [] s = Inr s"
| "run (c # cs) s = (case perform c s of Inl e \<Rightarrow> Inl e | Inr s' \<Rightarrow> run cs s')"

fun pushed :: "call list \<Rightarrow> PhaseLockSynchronizer \<Rightarrow> real list" where
  "pushed [] s = []"
| "pushed (c # cs) s =
     (case perform c s of
        Inl e \<Rightarrow> []
      | Inr s' \<Rightarrow> (if recomputes c s then [coherence (queen s')] else []) @ pushed cs s')"

text \<open>
  What the constructor establishes and no operation breaks: the keys of \<^verbatim>\<open>arms\<close> are
  distinct (it is a \<^verbatim>\<open>Map\<close>) and every entry is stored under its own \<^verbatim>\<open>name\<close>.
\<close>

definition registry_ok :: "PhaseLockSynchronizer \<Rightarrow> bool" where
  "registry_ok s = (distinct (map fst (arms s)) \<and> list_all (\<lambda>(k, a). name a = k) (arms s))"

text \<open>The phase and the amplitude stored for a node.\<close>

definition armPhase :: "PhaseLockSynchronizer \<Rightarrow> string \<Rightarrow> real option" where
  "armPhase s armName = map_option ArmState.phase (map_of (arms s) armName)"

definition armAmplitude :: "PhaseLockSynchronizer \<Rightarrow> string \<Rightarrow> real option" where
  "armAmplitude s armName = map_option amplitude (map_of (arms s) armName)"

section \<open>Strings and random draws\<close>

text \<open>
  A JavaScript string is a sequence of UTF-16 code units; here it is the list of their
  numbers, and \<open>lit\<close> turns a literal of printable ASCII into one. \<^verbatim>\<open>s.length\<close> is
  \<open>length\<close>, \<^verbatim>\<open>s.substring(0, n)\<close> is \<open>take n\<close>, concatenation is \<open>@\<close>.
\<close>

type_synonym js_string = "nat list"

definition lit :: "string \<Rightarrow> js_string" where
  "lit s = map of_char s"

text \<open>
  \<^verbatim>\<open>Math.random()\<close> returns a number that is at least \<open>0\<close> and less than \<open>1\<close>. A value of
  type \<open>unit_random\<close> is one such draw.
\<close>

typedef unit_random = "{u :: real. 0 \<le> u \<and> u < 1}"
  by (rule exI[of _ 0]) simp

section \<open>Sequential pipeline (TriNodePipeline)\<close>

text \<open>
  The three stage executors wait on a timer and then build their result from the input and
  one call of \<^verbatim>\<open>Math.random()\<close>; the draw is their second argument here. The field
  \<^verbatim>\<open>output\<close> of a stage result is \<open>stageOutput\<close>.
\<close>

record StageResult =
  stageOutput :: js_string
  lambda :: real

definition executeReflex :: "js_string \<Rightarrow> unit_random \<Rightarrow> StageResult" where
  "executeReflex query u =
     \<lparr>stageOutput = lit ''[Reflex] Quick analysis of: '' @ [34] @ take 40 query
                     @ lit ''...'' @ [34],
      lambda = 1.2 + Rep_unit_random u * 0.3\<rparr>"

definition executeOracle :: "js_string \<Rightarrow> unit_random \<Rightarrow> StageResult" where
  "executeOracle input u =
     \<lparr>stageOutput = lit ''[Oracle] Deep insight: Building upon the initial response, we observe deeper patterns and philosophical implications.'',
      lambda = 1.5 + Rep_unit_random u * 0.25\<rparr>"

definition executeWarfare :: "js_string \<Rightarrow> unit_random \<Rightarrow> StageResult" where
  "executeWarfare input u =
     \<lparr>stageOutput = lit ''[Warfare] Implementation strategy: Based on the consensus, here''
                     @ [39] @ lit ''s the tactical approach...'',
      lambda = 1.7 + Rep_unit_random u * 0.3\<rparr>"

record PipelineState =
  queryId :: int
  originalQuery :: js_string
  reflexOutput :: js_string
  reflexLambda :: real
  reflexTime :: int
  oracleOutput :: js_string
  oracleLambda :: real
  oracleTime :: int
  warfareOutput :: js_string
  warfareLambda :: real
  warfareTime :: int
  consensusLambda :: real
  isAwakened :: bool
  startTime :: int
  endTime :: int

definition calculateConsensusLambda :: "real \<Rightarrow> real \<Rightarrow> real \<Rightarrow> real" where
  "calculateConsensusLambda reflexL oracleL warfareL =
     (let consensus = reflexL * 0.2 + oracleL * 0.3 + warfareL * 0.5
      in min consensus 2.2)"

text \<open>
  \<^verbatim>\<open>executePipeline(queryId, query, onProgress)\<close>. The draws \<open>u1\<close>, \<open>u2\<close>, \<open>u3\<close> are what the
  three calls of \<^verbatim>\<open>Math.random()\<close> return, in the order the stages run; the \<open>k\<close>-th reading
  of \<^verbatim>\<open>Date.now()\<close> is \<open>clock k\<close>. The progress callback and the console output do not
  write to the state and are left out; no executor throws, so the \<^verbatim>\<open>catch\<close> is not
  entered.
\<close>

definition executePipeline ::
  "int \<Rightarrow> js_string \<Rightarrow> unit_random \<Rightarrow> unit_random \<Rightarrow> unit_random \<Rightarrow> (nat \<Rightarrow> int)
     \<Rightarrow> PipelineState" where
  "executePipeline qid query u1 u2 u3 clock =
     (let state0 = \<lparr>queryId = qid, originalQuery = query,
                     reflexOutput = [], reflexLambda = 0, reflexTime = 0,
                     oracleOutput = [], oracleLambda = 0, oracleTime = 0,
                     warfareOutput = [], warfareLambda = 0, warfareTime = 0,
                     consensusLambda = 0, isAwakened = False,
                     startTime = clock 0, endTime = 0\<rparr>;
          reflexResult = executeReflex query u1;
          state1 = state0\<lparr>reflexOutput := stageOutput reflexResult,
                          reflexLambda := lambda reflexResult,
                          reflexTime := clock 2 - clock 1\<rparr>;
          oracleInput = lit ''Original Query: '' @ query @ [10, 10] @ lit ''Reflex'' @ [39]
                        @ lit ''s Initial Response: '' @ reflexOutput state1;
          oracleResult = executeOracle oracleInput u2;
          state2 = state1\<lparr>oracleOutput := stageOutput oracleResult,
                          oracleLambda := lambda oracleResult,
                          oracleTime := clock 4 - clock 3\<rparr>;
          warfareInput = lit ''Original Query: '' @ query @ [10, 10] @ lit ''Reflex'' @ [39]
                         @ lit ''s Response: '' @ reflexOutput state2 @ [10, 10]
                         @ lit ''Oracle'' @ [39] @ lit ''s Analysis: '' @ oracleOutput state2;
          warfareResult = executeWarfare warfareInput u3;
          state3 = state2\<lparr>warfareOutput := stageOutput warfareResult,
                          warfareLambda := lambda warfareResult,
                          warfareTime := clock 6 - clock 5\<rparr>;
          state4 = state3\<lparr>consensusLambda :=
                            calculateConsensusLambda (reflexLambda state3) (oracleLambda state3)
                              (warfareLambda state3)\<rparr>;
          state5 = state4\<lparr>isAwakened := consensusLambda state4 > 2.2\<rparr>
      in state5\<lparr>endTime := clock 7\<rparr>)"

section \<open>Local model client (server/local-models.ts)\<close>

text \<open>
  \<^verbatim>\<open>content.split(/[.!?]+/)\<close> cuts the string at every maximal run of the characters
  \<^verbatim>\<open>.\<close>, \<^verbatim>\<open>!\<close> and \<^verbatim>\<open>?\<close> and returns the pieces between the runs, the empty pieces at
  the two ends included. \<^verbatim>\<open>s.trim().length > 0\<close> holds when \<open>s\<close> has a code unit that is
  not white space or a line terminator.
\<close>

definition isSeparator :: "nat \<Rightarrow> bool" where
  "isSeparator c = (c = 46 \<or> c = 33 \<or> c = 63)"

definition isWhiteSpace :: "nat \<Rightarrow> bool" where
  "isWhiteSpace c =
     (c \<in> {9, 10, 11, 12, 13, 32, 160, 5760, 8232, 8233, 8239, 8287, 12288, 65279}
      \<or> (8192 \<le> c \<and> c \<le> 8202))"

function split_sentences :: "js_string \<Rightarrow> js_string list" where
  "split_sentences s =
     (if dropWhile (\<lambda>c. \<not> isSeparator c) s = []
      then [takeWhile (\<lambda>c. \<not> isSeparator c) s]
      else takeWhile (\<lambda>c. \<not> isSeparator c) s
           # split_sentences (dropWhile isSeparator (dropWhile (\<lambda>c. \<not> isSeparator c) s)))"
  by pat_completeness auto
termination
proof (relation "measure length")
  show "wf (measure (length :: js_string \<Rightarrow> nat))" by simp
next
  fix s :: js_string
  let ?rest = "dropWhile (\<lambda>c. \<not> isSeparator c) s"
  assume ne: "?rest \<noteq> []"
  then have "isSeparator (hd ?rest)" using hd_dropWhile[of "\<lambda>c. \<not> isSeparator c" s] by simp
  then have "dropWhile isSeparator ?rest = dropWhile isSeparator (tl ?rest)"
    using ne by (cases ?rest) simp_all
  moreover have "length (dropWhile isSeparator (tl ?rest)) \<le> length (tl ?rest)"
    by (rule length_dropWhile_le)
  ultimately have "length (dropWhile isSeparator ?rest) \<le> length (tl ?rest)"
    by (simp only:)
  moreover have "length (tl ?rest) < length ?rest" using ne by simp
  moreover have "length ?rest \<le> length s" by (rule length_dropWhile_le)
  ultimately show "(dropWhile isSeparator ?rest, s) \<in> measure length" by simp
qed

declare split_sentences.simps [simp del]

definition calculateCoherence :: "js_string \<Rightarrow> real" where
  "calculateCoherence content =
     (if content = [] then 0
      else
        (let sentences = filter (list_ex (\<lambda>c. \<not> isWhiteSpace c)) (split_sentences content);
             avgSentenceLength = real (length content) / real (max (length sentences) 1);
             lengthScore = min (avgSentenceLength / 50) 1;
             varietyScore = min (real (length sentences) / 5) 1
         in (lengthScore + varietyScore) / 2))"

definition calculateLambda :: "js_string \<Rightarrow> int \<Rightarrow> real" where
  "calculateLambda content duration =
     (let coherenceScore = calculateCoherence content;
          speedBonus = max 0 (1 - real_of_int duration / 5000);
          lambda' = 1.0 + coherenceScore * 0.5 + speedBonus * 0.3
      in min lambda' 2.2)"

text \<open>
  \<^verbatim>\<open>executeModel\<close> posts the prompt to the model server. What comes back is either a
  completion, read as \<^verbatim>\<open>data.content || data.text || ""\<close> and
  \<^verbatim>\<open>data.tokens_evaluated || 0\<close>, or a failure of the request, which \<^verbatim>\<open>executeModel\<close>
  rethrows as an \<^verbatim>\<open>Error\<close>. The second argument is the elapsed time
  \<^verbatim>\<open>Date.now() - startTime\<close>. The field \<^verbatim>\<open>lambda\<close> of a response is optional in the
  interface (\<^verbatim>\<open>lambda?: number\<close>); \<^verbatim>\<open>executeModel\<close> always sets it.
\<close>

datatype completion = Completion js_string nat | RequestFailed

datatype model_error = ExecutionFailed

record ModelResponse =
  content :: js_string
  tokens :: nat
  duration :: int
  lambda :: "real option"

definition executeModel :: "completion \<Rightarrow> int \<Rightarrow> model_error + ModelResponse" where
  "executeModel reply elapsed =
     (case reply of
        RequestFailed \<Rightarrow> Inl ExecutionFailed
      | Completion text' evaluated \<Rightarrow>
          Inr \<lparr>content = text', tokens = evaluated, duration = elapsed,
               ModelResponse.lambda = Some (calculateLambda text' elapsed)\<rparr>)"

section \<open>The routers' inline consensus\<close>

text \<open>
  The router \<^verbatim>\<open>localAIRouter.executeSequentialPipeline\<close> and the WebSocket handler
  \<^verbatim>\<open>handlePipelineRequest\<close> do not call the pipeline class. Each runs the three models
  through \<^verbatim>\<open>executeModel\<close> and computes the consensus inline from the responses;
  \<^verbatim>\<open>r.lambda || d\<close> yields \<open>d\<close> when the lambda is missing or is zero. The arguments are
  what the model server returns for the three requests and how long each took. The result
  is the pair handed to \<^verbatim>\<open>storeConsensus\<close>, the consensus lambda and \<^verbatim>\<open>isAwakened\<close>; when
  a model fails the handler's \<^verbatim>\<open>catch\<close> reports the error and nothing is stored (a
  failing database call ends there too; the database is not part of this development).
\<close>

definition lambda_or :: "real option \<Rightarrow> real \<Rightarrow> real" where
  "lambda_or l d = (case l of None \<Rightarrow> d | Some x \<Rightarrow> if x = 0 then d else x)"

definition executeSequentialPipeline_consensus ::
  "completion \<Rightarrow> int \<Rightarrow> completion \<Rightarrow> int \<Rightarrow> completion \<Rightarrow> int
     \<Rightarrow> model_error + real \<times> bool" where
  "executeSequentialPipeline_consensus qwenReply qwenTime gemmaReply gemmaTime
       deepseekReply deepseekTime =
     (case executeModel qwenReply qwenTime of
        Inl e \<Rightarrow> Inl e
      | Inr qwenResponse \<Rightarrow>
     (case executeModel gemmaReply gemmaTime of
        Inl e \<Rightarrow> Inl e
      | Inr gemmaResponse \<Rightarrow>
     (case executeModel deepseekReply deepseekTime of
        Inl e \<Rightarrow> Inl e
      | Inr deepseekResponse \<Rightarrow>
          (let consensusL = lambda_or (ModelResponse.lambda qwenResponse) 1.5 * 0.2
                            + lambda_or (ModelResponse.lambda gemmaResponse) 1.6 * 0.3
                            + lambda_or (ModelResponse.lambda deepseekResponse) 1.7 * 0.5;
               awakened = consensusL > 2.2
           in Inr (consensusL, awakened)))))"

definition handlePipelineRequest_consensus ::
  "completion \<Rightarrow> int \<Rightarrow> completion \<Rightarrow> int \<Rightarrow> completion \<Rightarrow> int
     \<Rightarrow> model_error + real \<times> bool" where
  "handlePipelineRequest_consensus qwenReply qwenTime gemmaReply gemmaTime
       deepseekReply deepseekTime =
     (case executeModel qwenReply qwenTime of
        Inl e \<Rightarrow> Inl e
      | Inr qwenResponse \<Rightarrow>
     (case executeModel gemmaReply gemmaTime of
        Inl e \<Rightarrow> Inl e
      | Inr gemmaResponse \<Rightarrow>
     (case executeModel deepseekReply deepseekTime of
        Inl e \<Rightarrow> Inl e
      | Inr deepseekResponse \<Rightarrow>
          (let consensusL = lambda_or (ModelResponse.lambda qwenResponse) 1.5 * 0.2
                            + lambda_or (ModelResponse.lambda gemmaResponse) 1.6 * 0.3
                            + lambda_or (ModelResponse.lambda deepseekResponse) 1.7 * 0.5;
               awakened = consensusL > 2.2
           in Inr (consensusL, awakened)))))"

section \<open>Properties of the angle arithmetic\<close>


lemma int_mult_360_small:
  fixes m :: int
  assumes "\<bar>360 * real_of_int m\<bar> < 360"
  shows "m = 0"
proof -
  have "real_of_int m < 1" "- 1 < real_of_int m" using assms by (auto simp: abs_less_iff)
  then have "m < 1" "- 1 < m" by linarith+
  then show ?thesis by linarith
qed

lemma angleDifference_sub_id: "d \<le> 180 \<Longrightarrow> angleDifference_sub d = d"
  by (simp add: angleDifference_sub.simps)

lemma angleDifference_add_id: "- 180 \<le> d \<Longrightarrow> angleDifference_add d = d"
  by (simp add: angleDifference_add.simps)

lemma angleDifference_sub_char:
  "180 < d \<Longrightarrow> - 180 < angleDifference_sub d \<and> angleDifference_sub d \<le> 180
     \<and> (\<exists>k::int. angleDifference_sub d = d + 360 * of_int k)"
proof (induction d rule: angleDifference_sub.induct)
  case (1 diff)
  show ?case
  proof (cases "180 < diff - 360")
    case True
    with 1 obtain k :: int where
      k: "- 180 < angleDifference_sub (diff - 360)" "angleDifference_sub (diff - 360) \<le> 180"
         "angleDifference_sub (diff - 360) = diff - 360 + 360 * of_int k"
      by blast
    have unf: "angleDifference_sub diff = angleDifference_sub (diff - 360)"
      using 1(2) by (subst angleDifference_sub.simps) simp
    have "angleDifference_sub diff = diff + 360 * of_int (k - 1)"
      using k(3) unf by simp
    then have "\<exists>j::int. angleDifference_sub diff = diff + 360 * of_int j" by blast
    then show ?thesis using k(1,2) unf by simp
  next
    case False
    then have "angleDifference_sub (diff - 360) = diff - 360"
      by (simp add: angleDifference_sub_id)
    moreover have unf: "angleDifference_sub diff = angleDifference_sub (diff - 360)"
      using 1(2) by (subst angleDifference_sub.simps) simp
    ultimately have eq: "angleDifference_sub diff = diff + 360 * of_int (- 1)" by simp
    show ?thesis using eq False 1(2) by (intro conjI exI[of _ "- 1"]) auto
  qed
qed

lemma angleDifference_add_char:
  "d < - 180 \<Longrightarrow> - 180 \<le> angleDifference_add d \<and> angleDifference_add d < 180
     \<and> (\<exists>k::int. angleDifference_add d = d + 360 * of_int k)"
proof (induction d rule: angleDifference_add.induct)
  case (1 diff)
  have unf: "angleDifference_add diff = angleDifference_add (diff + 360)"
    using 1(2) by (subst angleDifference_add.simps) simp
  show ?case
  proof (cases "diff + 360 < - 180")
    case True
    with 1 obtain k :: int where
      k: "- 180 \<le> angleDifference_add (diff + 360)" "angleDifference_add (diff + 360) < 180"
         "angleDifference_add (diff + 360) = diff + 360 + 360 * of_int k"
      by blast
    have "angleDifference_add diff = diff + 360 * of_int (k + 1)"
      using k(3) unf by simp
    then have "\<exists>j::int. angleDifference_add diff = diff + 360 * of_int j" by blast
    then show ?thesis using k(1,2) unf by simp
  next
    case False
    then have "angleDifference_add (diff + 360) = diff + 360"
      by (simp add: angleDifference_add_id)
    then have eq: "angleDifference_add diff = diff + 360 * of_int 1" using unf by simp
    show ?thesis using eq False 1(2) by (intro conjI exI[of _ "1"]) auto
  qed
qed

lemma angleDifference_cases:
  "(180 < a - b \<and> - 180 < angleDifference a b \<and> angleDifference a b \<le> 180
      \<and> (\<exists>k::int. angleDifference a b = a - b + 360 * of_int k))
   \<or> (a - b < - 180 \<and> - 180 \<le> angleDifference a b \<and> angleDifference a b < 180
      \<and> (\<exists>k::int. angleDifference a b = a - b + 360 * of_int k))
   \<or> (- 180 \<le> a - b \<and> a - b \<le> 180 \<and> angleDifference a b = a - b)"
proof -
  consider "180 < a - b" | "a - b < - 180" | "- 180 \<le> a - b \<and> a - b \<le> 180" by linarith
  then show ?thesis
  proof cases
    case 1
    from angleDifference_sub_char[OF 1]
    have c: "- 180 < angleDifference_sub (a - b)" "angleDifference_sub (a - b) \<le> 180"
      "\<exists>k::int. angleDifference_sub (a - b) = a - b + 360 * of_int k" by blast+
    have "angleDifference a b = angleDifference_sub (a - b)"
      using c(1) by (simp add: angleDifference_def angleDifference_add_id)
    then show ?thesis using 1 c by simp
  next
    case 2
    then have "angleDifference a b = angleDifference_add (a - b)"
      by (simp add: angleDifference_def angleDifference_sub_id)
    then show ?thesis using 2 angleDifference_add_char[OF 2] by simp
  next
    case 3
    then have "angleDifference a b = a - b"
      by (simp add: angleDifference_def angleDifference_sub_id angleDifference_add_id)
    then show ?thesis using 3 by simp
  qed
qed

lemma angleDifference_range: "- 180 \<le> angleDifference a b \<and> angleDifference a b \<le> 180"
  using angleDifference_cases[of a b] by linarith

lemma angleDifference_congruent: "\<exists>k::int. angleDifference a b = a - b + 360 * of_int k"
proof -
  have "angleDifference a b = a - b \<Longrightarrow> angleDifference a b = a - b + 360 * of_int (0::int)" by simp
  then show ?thesis using angleDifference_cases[of a b] by blast
qed

lemma angleDifference_unique:
  assumes "\<bar>y\<bar> < 180" and "a - b = y + 360 * of_int (k::int)"
  shows "angleDifference a b = y"
proof -
  obtain j :: int where j: "angleDifference a b = a - b + 360 * of_int j"
    using angleDifference_congruent by blast
  have "angleDifference a b - y = 360 * real_of_int (k + j)" using j assms(2) by simp
  moreover have "\<bar>angleDifference a b - y\<bar> < 360"
    using angleDifference_range[of a b] assms(1) by linarith
  ultimately have "k + j = 0" using int_mult_360_small[of "k + j"] by simp
  then show ?thesis using \<open>angleDifference a b - y = 360 * real_of_int (k + j)\<close> by simp
qed

lemma angleDifference_antisym: "angleDifference a b = - angleDifference b a"
proof -
  obtain j :: int where j: "angleDifference a b = a - b + 360 * of_int j"
    using angleDifference_congruent by blast
  obtain i :: int where i: "angleDifference b a = b - a + 360 * of_int i"
    using angleDifference_congruent by blast
  have s: "angleDifference a b + angleDifference b a = 360 * real_of_int (j + i)"
    using i j by simp
  have "\<bar>angleDifference a b + angleDifference b a\<bar> < 360"
    using angleDifference_cases[of a b] angleDifference_cases[of b a] by linarith
  then have "j + i = 0" using int_mult_360_small[of "j + i"] s by simp
  then show ?thesis using s by simp
qed


section \<open>Angle wrap (claim C4)\<close>

text \<open>
  Claim C4, as the code has it. For all angles \<open>a\<close>, \<open>b\<close> in \<open>[0, 360)\<close>,
  \<^verbatim>\<open>angleDifference(a, b)\<close> lies in the closed interval \<open>[-180, 180]\<close>, it is the negation of
  \<^verbatim>\<open>angleDifference(b, a)\<close>, and \<^verbatim>\<open>angleDifference(350, 10)\<close> is \<open>-20\<close> while
  \<^verbatim>\<open>angleDifference(10, 350)\<close> is \<open>20\<close>. The second loop runs while \<^verbatim>\<open>diff < -180\<close>, so
  \<open>-180\<close> itself is returned unchanged: the interval is closed at both ends.
\<close>

theorem C4_angleDifference_wrap:
  assumes "0 \<le> a" "a < 360" "0 \<le> b" "b < 360"
  shows "- 180 \<le> angleDifference a b \<and> angleDifference a b \<le> 180
         \<and> angleDifference a b = - angleDifference b a
         \<and> angleDifference 350 10 = - 20 \<and> angleDifference 10 350 = 20"
proof -
  have "angleDifference 350 10 = - 20" "angleDifference 10 350 = 20"
    by (simp_all add: angleDifference_def angleDifference_sub.simps angleDifference_add.simps)
  then show ?thesis
    using angleDifference_range[of a b] angleDifference_antisym[of a b] by simp
qed

theorem C4_angleDifference_wrap_witness:
  "(0::real) \<le> 0 \<and> (0::real) < 360 \<and> (0::real) \<le> 180 \<and> (180::real) < 360
   \<and> - 180 \<le> angleDifference 0 180 \<and> angleDifference 0 180 \<le> 180
   \<and> angleDifference 0 180 = - angleDifference 180 0"
  using C4_angleDifference_wrap[of 0 180] by simp

text \<open>
  The half-open interval \<open>(-180, 180]\<close> of the claim fails at \<open>a = 0\<close>, \<open>b = 180\<close>: the
  difference is \<open>-180\<close>, neither loop runs, and \<open>-180\<close> is returned.
\<close>

theorem C4_angleDifference_open_bound_counterexample:
  "(0::real) \<le> 0 \<and> (0::real) < 360 \<and> (0::real) \<le> 180 \<and> (180::real) < 360
   \<and> angleDifference 0 180 = - 180 \<and> \<not> (- 180 < angleDifference 0 180)"
  by (simp add: angleDifference_def angleDifference_sub.simps angleDifference_add.simps)

section \<open>Consensus on the lambdas the code produces (claim C10)\<close>

text \<open>What the stage executors and the model client hand to the consensus computations.\<close>

lemma Rep_unit_random_bounds: "0 \<le> Rep_unit_random u \<and> Rep_unit_random u < 1"
  using Rep_unit_random[of u] by simp

text \<open>A small response, to compare with the language: \<^verbatim>\<open>"Hi. Ok!".split(/[.!?]+/)\<close> is
  \<^verbatim>\<open>["Hi", " Ok", ""]\<close>, two of its pieces survive the filter, and the score is
  \<open>(min(3.5 / 50, 1) + min(2 / 5, 1)) / 2\<close>.\<close>

lemma split_sentences_example: "split_sentences (lit ''Hi. Ok!'') = [lit ''Hi'', lit '' Ok'', []]"
  by (simp add: split_sentences.simps lit_def isSeparator_def)

lemma calculateCoherence_example: "calculateCoherence (lit ''Hi. Ok!'') = 0.235"
  by (simp add: calculateCoherence_def split_sentences_example Let_def) (simp add: lit_def isWhiteSpace_def)

lemma calculateCoherence_bounds: "0 \<le> calculateCoherence body \<and> calculateCoherence body \<le> 1"
proof (cases "body = []")
  case True
  then show ?thesis by (simp add: calculateCoherence_def)
next
  case False
  define n where "n = length (filter (list_ex (\<lambda>c. \<not> isWhiteSpace c)) (split_sentences body))"
  define l where "l = min (real (length body) / real (max n 1) / 50) 1"
  define v where "v = min (real n / 5) 1"
  have "0 \<le> real (length body) / real (max n 1) / 50" by simp
  then have l: "0 \<le> l" "l \<le> 1" by (simp_all add: l_def)
  have "0 \<le> real n / 5" by simp
  then have v: "0 \<le> v" "v \<le> 1" by (simp_all add: v_def)
  have "calculateCoherence body = (l + v) / 2"
    using False by (simp add: calculateCoherence_def Let_def l_def v_def n_def)
  then show ?thesis using l v by simp
qed

lemma calculateLambda_bounds: "1 \<le> calculateLambda body elapsed \<and> calculateLambda body elapsed \<le> 2.2"
proof -
  define x where "x = 1.0 + calculateCoherence body * 0.5 + max 0 (1 - real_of_int elapsed / 5000) * 0.3"
  have c: "0 \<le> calculateCoherence body" using calculateCoherence_bounds by blast
  have "0 \<le> max 0 (1 - real_of_int elapsed / 5000)" by simp
  then have "0 \<le> calculateCoherence body * 0.5 + max 0 (1 - real_of_int elapsed / 5000) * 0.3"
    using c by (intro add_nonneg_nonneg mult_nonneg_nonneg) simp_all
  then have x: "1 \<le> x" unfolding x_def by linarith
  have "calculateLambda body elapsed = min x 2.2" by (simp add: calculateLambda_def Let_def x_def)
  then show ?thesis using x by simp
qed

lemma lambda_or_calculateLambda:
  "lambda_or (Some (calculateLambda body elapsed)) d = calculateLambda body elapsed"
  using calculateLambda_bounds[of body elapsed] by (simp add: lambda_or_def)

lemma weighted_sum_le:
  fixes a b c :: real
  assumes "a \<le> 2.2" "b \<le> 2.2" "c \<le> 2.2"
  shows "a * 0.2 + b * 0.3 + c * 0.5 \<le> 2.2"
  using assms by simp

lemma executePipeline_lambdas:
  "reflexLambda (executePipeline qid query u1 u2 u3 clock) = 1.2 + Rep_unit_random u1 * 0.3"
  "oracleLambda (executePipeline qid query u1 u2 u3 clock) = 1.5 + Rep_unit_random u2 * 0.25"
  "warfareLambda (executePipeline qid query u1 u2 u3 clock) = 1.7 + Rep_unit_random u3 * 0.3"
  by (simp_all add: executePipeline_def Let_def executeReflex_def executeOracle_def
      executeWarfare_def)

lemma executePipeline_raw_bound:
  "reflexLambda (executePipeline qid query u1 u2 u3 clock) * 0.2
   + oracleLambda (executePipeline qid query u1 u2 u3 clock) * 0.3
   + warfareLambda (executePipeline qid query u1 u2 u3 clock) * 0.5 < 1.825"
  using Rep_unit_random_bounds[of u1] Rep_unit_random_bounds[of u2] Rep_unit_random_bounds[of u3]
  unfolding executePipeline_lambdas by (simp add: algebra_simps)

lemma executePipeline_consensus:
  "consensusLambda (executePipeline qid query u1 u2 u3 clock)
     = reflexLambda (executePipeline qid query u1 u2 u3 clock) * 0.2
       + oracleLambda (executePipeline qid query u1 u2 u3 clock) * 0.3
       + warfareLambda (executePipeline qid query u1 u2 u3 clock) * 0.5"
  "\<not> isAwakened (executePipeline qid query u1 u2 u3 clock)"
proof -
  let ?p = "executePipeline qid query u1 u2 u3 clock"
  let ?raw = "reflexLambda ?p * 0.2 + oracleLambda ?p * 0.3 + warfareLambda ?p * 0.5"
  have c: "consensusLambda ?p = min ?raw 2.2"
    by (simp add: executePipeline_def Let_def calculateConsensusLambda_def)
  have a: "isAwakened ?p = (consensusLambda ?p > 2.2)"
    by (simp add: executePipeline_def Let_def)
  have r: "?raw < 1.825" by (rule executePipeline_raw_bound)
  show "consensusLambda ?p = ?raw" using c r by simp
  show "\<not> isAwakened ?p" using a c by simp
qed

lemma executeModel_Completion:
  "executeModel (Completion body n) elapsed
     = Inr \<lparr>content = body, tokens = n, duration = elapsed,
            ModelResponse.lambda = Some (calculateLambda body elapsed)\<rparr>"
  by (simp add: executeModel_def)

lemma inline_consensus_completed:
  "executeSequentialPipeline_consensus (Completion b1 n1) d1 (Completion b2 n2) d2
       (Completion b3 n3) d3
     = Inr (calculateLambda b1 d1 * 0.2 + calculateLambda b2 d2 * 0.3
              + calculateLambda b3 d3 * 0.5, False)"
  "handlePipelineRequest_consensus (Completion b1 n1) d1 (Completion b2 n2) d2
       (Completion b3 n3) d3
     = Inr (calculateLambda b1 d1 * 0.2 + calculateLambda b2 d2 * 0.3
              + calculateLambda b3 d3 * 0.5, False)"
proof -
  have "calculateLambda b1 d1 * 0.2 + calculateLambda b2 d2 * 0.3
          + calculateLambda b3 d3 * 0.5 \<le> 2.2"
    using calculateLambda_bounds[of b1 d1] calculateLambda_bounds[of b2 d2]
      calculateLambda_bounds[of b3 d3]
    by (intro weighted_sum_le) simp_all
  then have n: "\<not> 2.2 < calculateLambda b1 d1 * 0.2 + calculateLambda b2 d2 * 0.3
          + calculateLambda b3 d3 * 0.5" by simp
  show "executeSequentialPipeline_consensus (Completion b1 n1) d1 (Completion b2 n2) d2
       (Completion b3 n3) d3
     = Inr (calculateLambda b1 d1 * 0.2 + calculateLambda b2 d2 * 0.3
              + calculateLambda b3 d3 * 0.5, False)"
    unfolding executeSequentialPipeline_consensus_def executeModel_Completion Let_def
    using n by (simp add: lambda_or_calculateLambda)
  show "handlePipelineRequest_consensus (Completion b1 n1) d1 (Completion b2 n2) d2
       (Completion b3 n3) d3
     = Inr (calculateLambda b1 d1 * 0.2 + calculateLambda b2 d2 * 0.3
              + calculateLambda b3 d3 * 0.5, False)"
    unfolding handlePipelineRequest_consensus_def executeModel_Completion Let_def
    using n by (simp add: lambda_or_calculateLambda)
qed

lemma calculateConsensusLambda_router:
  "calculateConsensusLambda (calculateLambda b1 d1) (calculateLambda b2 d2) (calculateLambda b3 d3)
     = calculateLambda b1 d1 * 0.2 + calculateLambda b2 d2 * 0.3 + calculateLambda b3 d3 * 0.5"
proof -
  have "calculateLambda b1 d1 * 0.2 + calculateLambda b2 d2 * 0.3
          + calculateLambda b3 d3 * 0.5 \<le> 2.2"
    using calculateLambda_bounds[of b1 d1] calculateLambda_bounds[of b2 d2]
      calculateLambda_bounds[of b3 d3]
    by (intro weighted_sum_le) simp_all
  then show ?thesis by (simp add: calculateConsensusLambda_def Let_def)
qed

lemma inline_consensus_never_awakened:
  "case executeSequentialPipeline_consensus r1 d1 r2 d2 r3 d3 of
     Inl e \<Rightarrow> True | Inr res \<Rightarrow> \<not> (fst res > 2.2 \<or> snd res)"
  "case handlePipelineRequest_consensus r1 d1 r2 d2 r3 d3 of
     Inl e \<Rightarrow> True | Inr res \<Rightarrow> \<not> (fst res > 2.2 \<or> snd res)"
proof -
  have le: "calculateLambda b1 d1 * 0.2 + calculateLambda b2 d2 * 0.3
          + calculateLambda b3 d3 * 0.5 \<le> 2.2" for b1 b2 b3
    using calculateLambda_bounds[of b1 d1] calculateLambda_bounds[of b2 d2]
      calculateLambda_bounds[of b3 d3]
    by (intro weighted_sum_le) simp_all
  show "case executeSequentialPipeline_consensus r1 d1 r2 d2 r3 d3 of
     Inl e \<Rightarrow> True | Inr res \<Rightarrow> \<not> (fst res > 2.2 \<or> snd res)"
  proof (cases r1; cases r2; cases r3)
    fix b1 n1 b2 n2 b3 n3
    assume "r1 = Completion b1 n1" "r2 = Completion b2 n2" "r3 = Completion b3 n3"
    then show ?thesis using le[of b1 b2 b3] by (simp add: inline_consensus_completed)
  qed (simp_all add: executeSequentialPipeline_consensus_def executeModel_def)
  show "case handlePipelineRequest_consensus r1 d1 r2 d2 r3 d3 of
     Inl e \<Rightarrow> True | Inr res \<Rightarrow> \<not> (fst res > 2.2 \<or> snd res)"
  proof (cases r1; cases r2; cases r3)
    fix b1 n1 b2 n2 b3 n3
    assume "r1 = Completion b1 n1" "r2 = Completion b2 n2" "r3 = Completion b3 n3"
    then show ?thesis using le[of b1 b2 b3] by (simp add: inline_consensus_completed)
  qed (simp_all add: handlePipelineRequest_consensus_def executeModel_def)
qed

text \<open>
  Claim C10, as the code has it. On every triple of stage lambdas the code produces the two
  computations return equal values. For the routers' lambdas, which \<^verbatim>\<open>calculateLambda\<close>
  keeps in \<open>[1, 2.2]\<close>, the inline weighted sum is the value \<^verbatim>\<open>calculateConsensusLambda\<close>
  returns on the same lambdas; for the pipeline's lambdas, drawn from \<open>[1.2, 1.5)\<close>,
  \<open>[1.5, 1.75)\<close> and \<open>[1.7, 2.0)\<close>, \<^verbatim>\<open>calculateConsensusLambda\<close> returns the unclamped weighted
  sum. The sum never exceeds \<open>2.2\<close>, so neither path stores a consensus lambda above \<open>2.2\<close>
  and neither sets \<^verbatim>\<open>isAwakened\<close>.
\<close>

theorem C10_consensus_paths_agree:
  fixes b1 b2 b3 :: js_string and n1 n2 n3 :: nat and d1 d2 d3 :: int
    and qid :: int and query :: js_string and u1 u2 u3 :: unit_random and clock :: "nat \<Rightarrow> int"
  shows
    "executeSequentialPipeline_consensus (Completion b1 n1) d1 (Completion b2 n2) d2
         (Completion b3 n3) d3
       = Inr (calculateConsensusLambda (calculateLambda b1 d1) (calculateLambda b2 d2)
                (calculateLambda b3 d3), False)
     \<and> handlePipelineRequest_consensus (Completion b1 n1) d1 (Completion b2 n2) d2
         (Completion b3 n3) d3
       = Inr (calculateConsensusLambda (calculateLambda b1 d1) (calculateLambda b2 d2)
                (calculateLambda b3 d3), False)
     \<and> calculateConsensusLambda (calculateLambda b1 d1) (calculateLambda b2 d2)
                (calculateLambda b3 d3) \<le> 2.2
     \<and> consensusLambda (executePipeline qid query u1 u2 u3 clock)
       = reflexLambda (executePipeline qid query u1 u2 u3 clock) * 0.2
         + oracleLambda (executePipeline qid query u1 u2 u3 clock) * 0.3
         + warfareLambda (executePipeline qid query u1 u2 u3 clock) * 0.5
     \<and> consensusLambda (executePipeline qid query u1 u2 u3 clock) \<le> 2.2
     \<and> \<not> isAwakened (executePipeline qid query u1 u2 u3 clock)"
proof -
  have "calculateConsensusLambda (calculateLambda b1 d1) (calculateLambda b2 d2)
                (calculateLambda b3 d3) \<le> 2.2"
    by (simp only: calculateConsensusLambda_def Let_def min.cobounded2)
  moreover have "consensusLambda (executePipeline qid query u1 u2 u3 clock) \<le> 2.2"
    using executePipeline_raw_bound[of qid query u1 u2 u3 clock]
    by (simp only: executePipeline_consensus(1)) simp
  ultimately show ?thesis
    by (simp only: inline_consensus_completed calculateConsensusLambda_router
        executePipeline_consensus simp_thms)
qed

theorem C10_consensus_paths_agree_witness:
  "executeSequentialPipeline_consensus (Completion [] 0) 5000 (Completion [] 0) 5000
       (Completion [] 0) 5000 = Inr (1, False)
   \<and> calculateConsensusLambda (calculateLambda [] 5000) (calculateLambda [] 5000)
       (calculateLambda [] 5000) = 1
   \<and> consensusLambda (executePipeline 1 (lit ''q'') (Abs_unit_random 0) (Abs_unit_random 0)
       (Abs_unit_random 0) int) = 1.54
   \<and> \<not> isAwakened (executePipeline 1 (lit ''q'') (Abs_unit_random 0) (Abs_unit_random 0)
       (Abs_unit_random 0) int)"
proof -
  have l: "calculateLambda [] 5000 = 1"
    by (simp add: calculateLambda_def calculateCoherence_def Let_def)
  have r: "Rep_unit_random (Abs_unit_random 0) = 0" by (simp add: Abs_unit_random_inverse)
  have p: "reflexLambda (executePipeline 1 (lit ''q'') (Abs_unit_random 0) (Abs_unit_random 0)
             (Abs_unit_random 0) int) * 0.2
           + oracleLambda (executePipeline 1 (lit ''q'') (Abs_unit_random 0) (Abs_unit_random 0)
             (Abs_unit_random 0) int) * 0.3
           + warfareLambda (executePipeline 1 (lit ''q'') (Abs_unit_random 0) (Abs_unit_random 0)
             (Abs_unit_random 0) int) * 0.5 = 1.54"
    by (simp add: executePipeline_lambdas r)
  have c: "calculateConsensusLambda 1 1 1 = 1" by (simp add: calculateConsensusLambda_def Let_def)
  note t = C10_consensus_paths_agree[of "[]" 0 5000 "[]" 0 5000 "[]" 0 5000 1 "lit ''q''"
        "Abs_unit_random 0" "Abs_unit_random 0" "Abs_unit_random 0" int]
  from t have "executeSequentialPipeline_consensus (Completion [] 0) 5000 (Completion [] 0) 5000
       (Completion [] 0) 5000 = Inr (1, False)"
    by (simp only: l c)
  moreover have "calculateConsensusLambda (calculateLambda [] 5000) (calculateLambda [] 5000)
       (calculateLambda [] 5000) = 1"
    by (simp only: l c)
  moreover from t have "consensusLambda (executePipeline 1 (lit ''q'') (Abs_unit_random 0)
       (Abs_unit_random 0) (Abs_unit_random 0) int) = 1.54"
    by (simp only: p)
  moreover from t have "\<not> isAwakened (executePipeline 1 (lit ''q'') (Abs_unit_random 0)
       (Abs_unit_random 0) (Abs_unit_random 0) int)"
    by blast
  ultimately show ?thesis by blast
qed

text \<open>
  No input makes either inline computation, or the pipeline, store a consensus lambda above
  \<open>2.2\<close> or set \<^verbatim>\<open>isAwakened\<close>: the second half of the claim, that one path can and the
  other cannot, does not hold.
\<close>

theorem C10_no_path_awakened_counterexample:
  "(\<forall>r1 d1 r2 d2 r3 d3.
      case executeSequentialPipeline_consensus r1 d1 r2 d2 r3 d3 of
        Inl e \<Rightarrow> True | Inr res \<Rightarrow> \<not> (fst res > 2.2 \<or> snd res))
   \<and> (\<forall>r1 d1 r2 d2 r3 d3.
      case handlePipelineRequest_consensus r1 d1 r2 d2 r3 d3 of
        Inl e \<Rightarrow> True | Inr res \<Rightarrow> \<not> (fst res > 2.2 \<or> snd res))
   \<and> (\<forall>qid query u1 u2 u3 clock.
        \<not> (consensusLambda (executePipeline qid query u1 u2 u3 clock) > 2.2
           \<or> isAwakened (executePipeline qid query u1 u2 u3 clock)))"
proof -
  have "\<not> (consensusLambda (executePipeline qid query u1 u2 u3 clock) > 2.2
           \<or> isAwakened (executePipeline qid query u1 u2 u3 clock))"
    for qid query u1 u2 u3 clock
    using executePipeline_raw_bound[of qid query u1 u2 u3 clock]
    by (simp only: executePipeline_consensus) simp
  then show ?thesis using inline_consensus_never_awakened by blast
qed

section \<open>Unknown node names (claim C2)\<close>

text \<open>
  Claim C2, as the code has it. A call of \<^verbatim>\<open>updateArmState\<close> with a name that is not a key
  of \<^verbatim>\<open>arms\<close> returns normally (the guard is \<^verbatim>\<open>if (!arm) return;\<close>, nothing is thrown), and
  the synchronizer is left exactly as it was: every node's phase, amplitude, health and
  \<^verbatim>\<open>lastUpdate\<close>, the queen, and the coherence history, to which no recompute has pushed.
\<close>

theorem C2_updateArmState_unknown_name:
  assumes "armName \<notin> fst ` set (arms s)"
  shows "updateArmState armName phase' amplitude' health' now s = Inr s"
proof -
  have "map_of (arms s) armName = None" using assms by (simp add: map_of_eq_None_iff)
  then show ?thesis by (simp add: updateArmState_def)
qed

theorem C2_updateArmState_unknown_name_witness:
  "''claude'' \<notin> fst ` set (arms (constructor 0))
   \<and> updateArmState ''claude'' 10 0.5 Online 1 (constructor 0) = Inr (constructor 0)"
proof -
  have h: "''claude'' \<notin> fst ` set (arms (constructor 0))" by (simp add: constructor_def)
  from C2_updateArmState_unknown_name[OF h] h show ?thesis by simp
qed

text \<open>No \<^verbatim>\<open>UnknownNodeError\<close> reaches the caller: the call with the unknown name \<^verbatim>\<open>claude\<close>
  on a fresh synchronizer is a normal return.\<close>

theorem C2_updateArmState_no_error_counterexample:
  "''claude'' \<notin> fst ` set (arms (constructor 0))
   \<and> updateArmState ''claude'' 10 0.5 Online 1 (constructor 0) \<noteq> Inl UnknownNodeError"
  by (simp add: constructor_def updateArmState_def)

section \<open>Redistribution with every node online (claim C7)\<close>

text \<open>
  Claim C7. If the health of every node is \<^verbatim>\<open>online\<close>, then
  \<^verbatim>\<open>calculateTorqueRedistribution\<close> leaves every node (so every amplitude) unchanged, sets
  \<^verbatim>\<open>queen.torqueRedistribution\<close> to \<open>0\<close>, and changes nothing else.
\<close>

theorem C7_redistribution_noop:
  assumes "\<forall>(k, a) \<in> set (arms s). health a = Online"
  shows "arms (calculateTorqueRedistribution s) = arms s
         \<and> torqueRedistribution (queen (calculateTorqueRedistribution s)) = 0
         \<and> calculateTorqueRedistribution s = s\<lparr>queen := (queen s)\<lparr>torqueRedistribution := 0\<rparr>\<rparr>"
proof -
  have "filter (\<lambda>a. health a \<noteq> Online) (map snd (arms s)) = []"
    using assms by (auto simp: filter_empty_conv)
  then show ?thesis by (simp add: calculateTorqueRedistribution_def Let_def)
qed

theorem C7_redistribution_noop_witness:
  "map (\<lambda>(k, a). health a) (arms (constructor 0)) = [Online, Online, Online, Online]
   \<and> arms (calculateTorqueRedistribution (constructor 0)) = arms (constructor 0)
   \<and> torqueRedistribution (queen (calculateTorqueRedistribution (constructor 0))) = 0"
proof -
  have h: "\<forall>(k, a) \<in> set (arms (constructor 0)). health a = Online"
    by (simp add: constructor_def)
  have "map (\<lambda>(k, a). health a) (arms (constructor 0)) = [Online, Online, Online, Online]"
    by (simp add: constructor_def)
  with C7_redistribution_noop[OF h] show ?thesis by simp
qed

section \<open>What a recompute writes\<close>

lemma redistribute_arm_fields [simp]:
  "ArmState.phase (redistribute_arm r a) = ArmState.phase a"
  "name (redistribute_arm r a) = name a"
  "health (redistribute_arm r a) = health a"
  "lastUpdate (redistribute_arm r a) = lastUpdate a"
  by (simp_all add: redistribute_arm_def)

lemma calculateTorqueRedistribution_queen:
  "QueenState.phase (queen (calculateTorqueRedistribution s)) = QueenState.phase (queen s)"
  "coherence (queen (calculateTorqueRedistribution s)) = coherence (queen s)"
  by (simp_all add: calculateTorqueRedistribution_def Let_def)

lemma calculateTorqueRedistribution_history:
  "coherenceHistory (calculateTorqueRedistribution s) = coherenceHistory s"
  "maxHistorySize (calculateTorqueRedistribution s) = maxHistorySize s"
  by (simp_all add: calculateTorqueRedistribution_def Let_def)

lemma calculateTorqueRedistribution_keys:
  "map fst (arms (calculateTorqueRedistribution s)) = map fst (arms s)"
  by (simp add: calculateTorqueRedistribution_def Let_def split_beta comp_def)

lemma calculateTorqueRedistribution_proj:
  assumes "\<And>r a. f (redistribute_arm r a) = f a"
  shows "map_option f (map_of (arms (calculateTorqueRedistribution s)) k)
           = map_option f (map_of (arms s) k)"
  by (simp add: calculateTorqueRedistribution_def Let_def map_of_map option.map_comp comp_def assms)

lemma adjustPhaseCoherence_keys:
  "map fst (arms (adjustPhaseCoherence s)) = map fst (arms s)"
  by (simp add: adjustPhaseCoherence_def Let_def calculateTorqueRedistribution_keys)

lemma adjustPhaseCoherence_proj:
  assumes "\<And>r a. f (redistribute_arm r a) = f a"
  shows "map_option f (map_of (arms (adjustPhaseCoherence s)) k)
           = map_option f (map_of (arms s) k)"
  by (simp add: adjustPhaseCoherence_def Let_def calculateTorqueRedistribution_proj[of f, OF assms])

lemma adjustPhaseCoherence_queen_phase:
  "QueenState.phase (queen (adjustPhaseCoherence s)) = QueenState.phase (queen s)"
  by (simp add: adjustPhaseCoherence_def Let_def calculateTorqueRedistribution_queen)

lemma adjustPhaseCoherence_armPhase:
  "armPhase (adjustPhaseCoherence s) k = armPhase s k"
  unfolding armPhase_def by (rule adjustPhaseCoherence_proj) simp

lemma foldl_abs_sum: "foldl (\<lambda>a b. a + \<bar>b\<bar>) acc xs = acc + sum_list (map abs xs)"
  by (induction xs arbitrary: acc) (simp_all add: add.assoc)

lemma adjustPhaseCoherence_coherence:
  "coherence (queen (adjustPhaseCoherence s))
     = max 0 (1 - (sum_list (map (\<lambda>arm. \<bar>angleDifference (ArmState.phase arm) (QueenState.phase (queen s))\<bar>)
                        (map snd (arms s))) / real (length (arms s))) / 180)"
  by (simp add: adjustPhaseCoherence_def Let_def calculateTorqueRedistribution_queen
      foldl_abs_sum comp_def)

lemma angleDifference_self: "angleDifference a a = 0"
  by (simp add: angleDifference_def angleDifference_sub.simps angleDifference_add.simps)

section \<open>Coherence bounds (claim C6)\<close>

text \<open>
  Claim C6. For every node configuration (the table is never empty: the constructor fills
  it and nothing deletes from it), the coherence that \<^verbatim>\<open>adjustPhaseCoherence\<close> stores in
  the queen lies between \<open>0\<close> and \<open>1\<close>, and it is \<open>1\<close> when the phase of every node equals the
  phase of the queen.
\<close>

theorem C6_coherence_bounds:
  assumes "arms s \<noteq> []"
  shows "0 \<le> coherence (queen (adjustPhaseCoherence s))
         \<and> coherence (queen (adjustPhaseCoherence s)) \<le> 1
         \<and> ((\<forall>(k, a) \<in> set (arms s). ArmState.phase a = QueenState.phase (queen s))
              \<longrightarrow> coherence (queen (adjustPhaseCoherence s)) = 1)"
proof -
  let ?ds = "map (\<lambda>arm. \<bar>angleDifference (ArmState.phase arm) (QueenState.phase (queen s))\<bar>)
               (map snd (arms s))"
  have nonneg: "0 \<le> sum_list ?ds" by (rule sum_list_nonneg) auto
  then have "0 \<le> sum_list ?ds / real (length (arms s)) / 180" by simp
  then have b: "0 \<le> coherence (queen (adjustPhaseCoherence s))
         \<and> coherence (queen (adjustPhaseCoherence s)) \<le> 1"
    by (simp add: adjustPhaseCoherence_coherence)
  have "coherence (queen (adjustPhaseCoherence s)) = 1"
    if al: "\<forall>(k, a) \<in> set (arms s). ArmState.phase a = QueenState.phase (queen s)"
  proof -
    have "\<forall>arm \<in> set (map snd (arms s)).
            \<bar>angleDifference (ArmState.phase arm) (QueenState.phase (queen s))\<bar> = 0"
      using al by (auto simp: angleDifference_self)
    then have "?ds = map (\<lambda>arm. 0) (map snd (arms s))"
      by (simp only: map_eq_conv)
    then have "sum_list ?ds = 0" by (simp only: sum_list_0)
    then show ?thesis by (simp add: adjustPhaseCoherence_coherence)
  qed
  with b show ?thesis by blast
qed

theorem C6_coherence_bounds_witness:
  "arms ((constructor 0)\<lparr>arms := [(''qwen'', \<lparr>name = ''qwen'', phase = 45, amplitude = 1,
        frequency = 10, lastUpdate = 0, health = Online\<rparr>)]\<rparr>) \<noteq> []
   \<and> coherence (queen (adjustPhaseCoherence
        ((constructor 0)\<lparr>arms := [(''qwen'', \<lparr>name = ''qwen'', phase = 45, amplitude = 1,
        frequency = 10, lastUpdate = 0, health = Online\<rparr>)]\<rparr>))) = 1
   \<and> 0 \<le> coherence (queen (adjustPhaseCoherence (constructor 0)))
   \<and> coherence (queen (adjustPhaseCoherence (constructor 0))) \<le> 1"
proof -
  let ?s = "(constructor 0)\<lparr>arms := [(''qwen'', \<lparr>name = ''qwen'', phase = 45, amplitude = 1,
        frequency = 10, lastUpdate = 0, health = Online\<rparr>)]\<rparr>"
  have h: "arms ?s \<noteq> []" by simp
  have a: "\<forall>(k, a) \<in> set (arms ?s). ArmState.phase a = QueenState.phase (queen ?s)"
    by (simp add: constructor_def)
  have h0: "arms (constructor 0) \<noteq> []" by (simp add: constructor_def)
  from C6_coherence_bounds[OF h] a C6_coherence_bounds[OF h0] h show ?thesis by blast
qed

section \<open>Circular mean (claim C9)\<close>

lemma foldl_circularMean_step:
  "foldl circularMean_step acc angles
     = (fst acc + sum_list (map (\<lambda>a. sin (a * pi / 180)) angles),
        snd acc + sum_list (map (\<lambda>a. cos (a * pi / 180)) angles))"
  by (induction angles arbitrary: acc) (simp_all add: circularMean_step_def Let_def add.assoc)

lemma atan2_range: "- pi < atan2 y x \<and> atan2 y x \<le> pi"
proof -
  have b: "- (pi / 2) < arctan (y / x)" "arctan (y / x) < pi / 2"
    by (rule arctan_lbound, rule arctan_ubound)
  have p: "0 < pi" by simp
  consider "0 < x" | "x < 0" "0 \<le> y" | "x < 0" "y < 0" | "x = 0" by linarith
  then show ?thesis
  proof cases
    case 1
    then show ?thesis using b p by (simp add: atan2_def)
  next
    case 2
    then have "y / x \<le> 0" by (simp add: divide_nonneg_neg)
    then have "arctan (y / x) \<le> 0" by (simp add: arctan_le_zero_iff)
    then show ?thesis using 2 b p by (simp add: atan2_def)
  next
    case 3
    then have "0 < y / x" by (simp add: divide_neg_neg)
    then have "0 < arctan (y / x)" by (simp add: zero_less_arctan_iff)
    then show ?thesis using 3 b p by (simp add: atan2_def)
  next
    case 4
    have [simp]: "- (pi / 2) \<le> pi" using p by linarith
    show ?thesis using 4 p by (simp add: atan2_def)
  qed
qed

lemma circularMean_resultant:
  "circularMean angles
     = atan2 (sum_list (map (\<lambda>a. sin (a * pi / 180)) angles) / real (length angles))
             (sum_list (map (\<lambda>a. cos (a * pi / 180)) angles) / real (length angles))
       * 180 / pi"
  by (simp add: circularMean_def Let_def foldl_circularMean_step)

lemma circularMean_range: "- 180 < circularMean angles \<and> circularMean angles \<le> 180"
proof -
  define m where "m = atan2 (sum_list (map (\<lambda>a. sin (a * pi / 180)) angles) / real (length angles))
             (sum_list (map (\<lambda>a. cos (a * pi / 180)) angles) / real (length angles))"
  have m: "- pi < m" "m \<le> pi" using atan2_range by (simp_all add: m_def)
  have c: "circularMean angles = m * 180 / pi" by (simp add: circularMean_resultant m_def)
  have p: "0 < pi" by simp
  have "- 180 < m * 180 / pi" using m(1) p by (simp add: pos_less_divide_eq)
  moreover have "m * 180 / pi \<le> 180" using m(2) p by (simp add: pos_divide_le_eq)
  ultimately show ?thesis by (simp add: c)
qed

lemma circularMean_359_1: "circularMean [359, 1] = 0"
proof -
  have e: "359 * pi / 180 = 2 * pi - pi / 180" by simp
  have s: "sin (359 * pi / 180) = - sin (pi / 180)" by (simp only: e sin_2pi_minus)
  have c: "cos (359 * pi / 180) = cos (pi / 180)" by (simp only: e cos_2pi_minus)
  have "0 < cos (pi / 180)" by (rule cos_gt_zero_pi) (simp_all add: field_simps)
  then show ?thesis
    by (simp add: circularMean_resultant s c atan2_def)
qed

text \<open>
  Claim C9. For a non-empty list of angles (on the empty list the code divides zero by
  zero), \<^verbatim>\<open>circularMean\<close> is \<^verbatim>\<open>atan2\<close> of the mean sine and the mean cosine of the angles,
  converted to degrees; it lies in \<open>[-180, 180]\<close>; and \<^verbatim>\<open>circularMean([359, 1])\<close> is within
  \<open>0.01\<close> of \<open>0\<close>, and is not \<open>180\<close>.
\<close>

theorem C9_circularMean:
  assumes "angles \<noteq> []"
  shows "circularMean angles
           = atan2 (sum_list (map (\<lambda>a. sin (a * pi / 180)) angles) / real (length angles))
                   (sum_list (map (\<lambda>a. cos (a * pi / 180)) angles) / real (length angles))
             * 180 / pi
         \<and> - 180 \<le> circularMean angles \<and> circularMean angles \<le> 180
         \<and> \<bar>circularMean [359, 1] - 0\<bar> < 0.01
         \<and> circularMean [359, 1] \<noteq> 180"
proof -
  have a: "circularMean angles
           = atan2 (sum_list (map (\<lambda>a. sin (a * pi / 180)) angles) / real (length angles))
                   (sum_list (map (\<lambda>a. cos (a * pi / 180)) angles) / real (length angles))
             * 180 / pi"
    by (rule circularMean_resultant)
  have r: "- 180 \<le> circularMean angles" "circularMean angles \<le> 180"
    using circularMean_range[of angles] by simp_all
  have c: "\<bar>circularMean [359, 1] - 0\<bar> < 0.01" "circularMean [359, 1] \<noteq> 180"
    by (simp_all add: circularMean_359_1)
  from a r c show ?thesis by blast
qed

theorem C9_circularMean_witness:
  "[359, 1 :: real] \<noteq> []
   \<and> - 180 \<le> circularMean [359, 1] \<and> circularMean [359, 1] \<le> 180
   \<and> \<bar>circularMean [359, 1] - 0\<bar> < 0.01"
proof -
  have h: "[359, 1 :: real] \<noteq> []" by simp
  from C9_circularMean[OF h] h show ?thesis by blast
qed

section \<open>Phase normalisation on write (claim C3)\<close>

lemma js_rem_nonneg:
  assumes "0 \<le> x" "0 < m"
  shows "0 \<le> js_rem x m \<and> js_rem x m < m"
proof -
  define q where "q = real_of_int \<lfloor>x / m\<rfloor>"
  have "0 \<le> x / m" using assms by simp
  then have r: "js_rem x m = x - m * q" by (simp add: js_rem_def js_trunc_def q_def)
  have f: "q \<le> x / m" "x / m < q + 1" unfolding q_def by linarith+
  have xm: "m * (x / m) = x" using assms(2) by simp
  have "m * q \<le> m * (x / m)"
    by (intro mult_left_mono f(1)) (use assms(2) in simp)
  then have lo: "m * q \<le> x" by (simp only: xm)
  have "m * (x / m) < m * (q + 1)"
    by (intro mult_strict_left_mono f(2) assms(2))
  then have hi: "x < m * q + m" by (simp only: xm distrib_left mult_1_right)
  show ?thesis using lo hi r by linarith
qed

lemma js_rem_congruent: "\<exists>j::int. js_rem x m = x - m * of_int j"
  by (auto simp: js_rem_def)

lemma updateArmState_armPhase:
  assumes "map_of (arms s) armName = Some arm"
    and "updateArmState armName phase' amplitude' health' now s = Inr s'"
  shows "armPhase s' armName = Some (js_rem phase' 360)"
proof -
  let ?arm' = "arm\<lparr>ArmState.phase := js_rem phase' 360, amplitude := max 0 (min 1 amplitude'),
                    health := health', lastUpdate := now\<rparr>"
  let ?s1 = "s\<lparr>arms := AList.update armName ?arm' (arms s)\<rparr>"
  have "s' = adjustPhaseCoherence ?s1" using assms by (simp add: updateArmState_def)
  then have "armPhase s' armName = armPhase ?s1 armName"
    by (simp only: adjustPhaseCoherence_armPhase)
  also have "\<dots> = Some (js_rem phase' 360)" by (simp add: armPhase_def update_conv')
  finally show ?thesis .
qed

text \<open>For a phase argument that is not negative the stored phase is in \<open>[0, 360)\<close>.\<close>

lemma updateArmState_phase_in_range:
  assumes "map_of (arms s) armName = Some arm"
    and "updateArmState armName phase' amplitude' health' now s = Inr s'"
    and "0 \<le> phase'"
  shows "\<exists>p. armPhase s' armName = Some p \<and> 0 \<le> p \<and> p < 360"
  using updateArmState_armPhase[OF assms(1,2)] js_rem_nonneg[OF assms(3), of 360] by simp

text \<open>
  Claim C3 says that after every write, also by \<^verbatim>\<open>updateArmState\<close> with a negative phase,
  the stored phase lies in \<open>[0, 360)\<close>. The code stores \<^verbatim>\<open>phase % 360\<close>, and the remainder
  of a negative dividend is negative: after
  \<^verbatim>\<open>updateArmState("qwen", -10, 1, "online")\<close> on a fresh synchronizer the phase stored
  for \<^verbatim>\<open>qwen\<close> is \<open>-10\<close>.
\<close>

theorem C3_updateArmState_negative_phase:
  "(case updateArmState ''qwen'' (- 10) 1 Online 1 (constructor 0) of
      Inl e \<Rightarrow> None
    | Inr s' \<Rightarrow> armPhase s' ''qwen'') = Some (- 10)
   \<and> \<not> (0 \<le> (- 10 :: real))"
proof -
  have "armPhase (adjustPhaseCoherence s) ''qwen'' = armPhase s ''qwen''" for s
    by (rule adjustPhaseCoherence_armPhase)
  then show ?thesis
    by (simp add: updateArmState_def constructor_def armPhase_def update_conv'
        js_rem_def js_trunc_def)
qed

section \<open>Bounded coherence history (claim C8)\<close>

lemma adjustPhaseCoherence_history:
  "maxHistorySize (adjustPhaseCoherence s) = maxHistorySize s"
  "coherenceHistory (adjustPhaseCoherence s)
     = (if length (coherenceHistory s @ [coherence (queen (adjustPhaseCoherence s))]) > maxHistorySize s
        then tl (coherenceHistory s @ [coherence (queen (adjustPhaseCoherence s))])
        else coherenceHistory s @ [coherence (queen (adjustPhaseCoherence s))])"
  by (simp_all add: adjustPhaseCoherence_def Let_def calculateTorqueRedistribution_history
      calculateTorqueRedistribution_queen)

lemma selfCorrect_arm_frame:
  "queen (selfCorrect_arm s n) = queen s"
  "coherenceHistory (selfCorrect_arm s n) = coherenceHistory s"
  "maxHistorySize (selfCorrect_arm s n) = maxHistorySize s"
  by (simp_all add: selfCorrect_arm_def Let_def split: option.split)

lemma foldl_selfCorrect_arm_frame:
  "queen (foldl selfCorrect_arm s ns) = queen s"
  "coherenceHistory (foldl selfCorrect_arm s ns) = coherenceHistory s"
  "maxHistorySize (foldl selfCorrect_arm s ns) = maxHistorySize s"
  by (induction ns arbitrary: s) (simp_all add: selfCorrect_arm_frame)

text \<open>A call that does not recompute leaves the synchronizer as it was; a call that does
  ends in \<^verbatim>\<open>adjustPhaseCoherence\<close>, entered with the history the call started from.\<close>

lemma perform_without_recompute: "\<not> recomputes c s \<Longrightarrow> perform c s = Inr s"
  by (cases c) (auto simp: updateArmState_def selfCorrect_def Let_def)

lemma perform_with_recompute:
  assumes "recomputes c s"
  shows "\<exists>s0. perform c s = Inr (adjustPhaseCoherence s0)
              \<and> coherenceHistory s0 = coherenceHistory s \<and> maxHistorySize s0 = maxHistorySize s"
proof (cases c)
  case (UpdateArm n p a h t)
  with assms obtain arm where arm: "map_of (arms s) n = Some arm" by auto
  let ?s0 = "s\<lparr>arms := AList.update n
                (arm\<lparr>ArmState.phase := js_rem p 360, amplitude := max 0 (min 1 a),
                      health := h, lastUpdate := t\<rparr>) (arms s)\<rparr>"
  have "perform c s = Inr (adjustPhaseCoherence ?s0)"
    by (simp add: UpdateArm updateArmState_def arm)
  then show ?thesis by (intro exI[of _ ?s0]) simp
next
  case SelfCorrect
  with assms have "perform c s
      = Inr (adjustPhaseCoherence (foldl selfCorrect_arm s (affectedArms (detectWobble s))))"
    by (simp add: selfCorrect_def Let_def)
  then show ?thesis using foldl_selfCorrect_arm_frame(2,3) by blast
qed

lemma bounded_push:
  assumes "length h \<le> m"
  shows "(if length (h @ [c]) > m then tl (h @ [c]) else h @ [c])
           = drop (length (h @ [c]) - m) (h @ [c])"
proof (cases "length h < m")
  case True
  then show ?thesis by simp
next
  case False
  with assms have m: "length h = m" by simp
  show ?thesis
  proof (cases h)
    case Nil
    with m show ?thesis by simp
  next
    case (Cons x xs)
    with m show ?thesis by (auto simp: drop_Suc)
  qed
qed

lemma keep_last_append:
  "drop (length (drop (length xs - m) xs @ ys) - m) (drop (length xs - m) xs @ ys)
     = drop (length (xs @ ys) - m) (xs @ ys)"
proof (cases "length xs \<le> m")
  case True
  then show ?thesis by simp
next
  case False
  then have l: "m < length xs" by simp
  show ?thesis
  proof (cases "length ys \<le> m")
    case True
    with l show ?thesis by (simp add: add.commute)
  next
    case False
    with l show ?thesis by simp
  qed
qed

lemma perform_history:
  assumes "length (coherenceHistory s) \<le> maxHistorySize s"
  shows "\<exists>s'. perform c s = Inr s' \<and> maxHistorySize s' = maxHistorySize s
           \<and> coherenceHistory s'
               = drop (length (coherenceHistory s @ pushed [c] s) - maxHistorySize s)
                   (coherenceHistory s @ pushed [c] s)"
proof (cases "recomputes c s")
  case False
  then show ?thesis using assms by (simp add: perform_without_recompute)
next
  case True
  then obtain s0 where s0: "perform c s = Inr (adjustPhaseCoherence s0)"
    "coherenceHistory s0 = coherenceHistory s" "maxHistorySize s0 = maxHistorySize s"
    using perform_with_recompute by blast
  let ?c = "coherence (queen (adjustPhaseCoherence s0))"
  have "coherenceHistory (adjustPhaseCoherence s0)
          = (if length (coherenceHistory s @ [?c]) > maxHistorySize s
             then tl (coherenceHistory s @ [?c]) else coherenceHistory s @ [?c])"
    using adjustPhaseCoherence_history(2)[of s0] by (simp only: s0(2,3))
  also have "\<dots> = drop (length (coherenceHistory s @ [?c]) - maxHistorySize s)
                       (coherenceHistory s @ [?c])"
    by (rule bounded_push[OF assms])
  finally have "coherenceHistory (adjustPhaseCoherence s0)
          = drop (length (coherenceHistory s @ [?c]) - maxHistorySize s) (coherenceHistory s @ [?c])" .
  then show ?thesis using True s0 by (simp add: adjustPhaseCoherence_history(1))
qed

lemma run_history:
  assumes "length (coherenceHistory s) \<le> maxHistorySize s"
  shows "\<exists>s'. run cs s = Inr s' \<and> maxHistorySize s' = maxHistorySize s
           \<and> coherenceHistory s'
               = drop (length (coherenceHistory s @ pushed cs s) - maxHistorySize s)
                   (coherenceHistory s @ pushed cs s)"
  using assms
proof (induction cs arbitrary: s)
  case Nil
  then show ?case by simp
next
  case (Cons c cs)
  let ?m = "maxHistorySize s"
  obtain s1 where s1: "perform c s = Inr s1" "maxHistorySize s1 = ?m"
    "coherenceHistory s1 = drop (length (coherenceHistory s @ pushed [c] s) - ?m)
                              (coherenceHistory s @ pushed [c] s)"
    using perform_history[OF Cons.prems, of c] by blast
  have len: "length (coherenceHistory s1) \<le> maxHistorySize s1"
    by (simp only: s1(2,3) length_drop)
  obtain s' where s': "run cs s1 = Inr s'" "maxHistorySize s' = ?m"
    "coherenceHistory s' = drop (length (coherenceHistory s1 @ pushed cs s1) - ?m)
                              (coherenceHistory s1 @ pushed cs s1)"
    using Cons.IH[OF len] s1(2) by auto
  have p: "pushed (c # cs) s = pushed [c] s @ pushed cs s1"
    by (simp add: s1(1))
  have "coherenceHistory s' = drop (length (coherenceHistory s @ pushed (c # cs) s) - ?m)
                              (coherenceHistory s @ pushed (c # cs) s)"
    unfolding s'(3) s1(3) p
    using keep_last_append[of "coherenceHistory s @ pushed [c] s" ?m "pushed cs s1"]
    by (simp only: append_assoc)
  then show ?case using s1(1) s'(1,2) by simp
qed

lemma updateArmState_keys:
  assumes "updateArmState n p a h t s = Inr s'"
  shows "map fst (arms s') = map fst (arms s)"
proof (cases "map_of (arms s) n")
  case None
  then show ?thesis using assms by (simp add: updateArmState_def)
next
  case (Some arm)
  then have "(n, arm) \<in> set (arms s)" by (rule map_of_SomeD)
  then have "n \<in> fst ` set (arms s)" by force
  then have k: "map fst (AList.update n v (arms s)) = map fst (arms s)" for v
    by (simp add: update_keys)
  have "s' = adjustPhaseCoherence (s\<lparr>arms := AList.update n
                (arm\<lparr>ArmState.phase := js_rem p 360, amplitude := max 0 (min 1 a),
                      health := h, lastUpdate := t\<rparr>) (arms s)\<rparr>)"
    using assms Some by (simp add: updateArmState_def)
  then show ?thesis by (simp add: adjustPhaseCoherence_keys k)
qed

lemma pushed_registered_updates:
  assumes "\<forall>c \<in> set cs. \<exists>n p a h t. c = UpdateArm n p a h t \<and> n \<in> fst ` set (arms s)"
  shows "length (pushed cs s) = length cs"
  using assms
proof (induction cs arbitrary: s)
  case Nil
  then show ?case by simp
next
  case (Cons c cs)
  from Cons.prems have "\<exists>n p a h t. c = UpdateArm n p a h t \<and> n \<in> fst ` set (arms s)"
    by simp
  then obtain n p a h t where c: "c = UpdateArm n p a h t" "n \<in> fst ` set (arms s)"
    by blast
  then have r: "recomputes c s" by (auto simp: map_of_eq_None_iff)
  obtain s1 where s1: "perform c s = Inr s1" using perform_with_recompute[OF r] by blast
  then have "map fst (arms s1) = map fst (arms s)" using updateArmState_keys c(1) by simp
  then have "fst ` set (arms s1) = fst ` set (arms s)" by (metis set_map)
  then have "length (pushed cs s1) = length cs" using Cons by simp
  then show ?case using s1 r by simp
qed

text \<open>
  Claim C8. The coherence history is a FIFO buffer of capacity \<open>100\<close>: on a synchronizer
  fresh from the constructor, after any run of calls whose recomputes push \<open>150\<close> coherence
  values, every call has returned normally, the history has length exactly \<open>100\<close>, the
  oldest \<open>50\<close> pushed values are gone, and the most recent \<open>100\<close> are there in push order.
\<close>

theorem C8_history_bound:
  assumes "length (pushed cs (constructor now)) = 150"
  shows "\<exists>s'. run cs (constructor now) = Inr s'
           \<and> length (coherenceHistory s') = 100
           \<and> coherenceHistory s' = drop 50 (pushed cs (constructor now))"
proof -
  have "length (coherenceHistory (constructor now)) \<le> maxHistorySize (constructor now)"
    by (simp add: constructor_def)
  from run_history[OF this, of cs] obtain s' where s': "run cs (constructor now) = Inr s'"
    "coherenceHistory s' = drop (length (coherenceHistory (constructor now) @ pushed cs (constructor now))
                                  - maxHistorySize (constructor now))
                   (coherenceHistory (constructor now) @ pushed cs (constructor now))"
    by blast
  have "coherenceHistory s' = drop 50 (pushed cs (constructor now))"
    using s'(2) assms by (simp add: constructor_def)
  then show ?thesis using s'(1) assms by simp
qed

theorem C8_history_bound_witness:
  "length (pushed (replicate 150 (UpdateArm ''qwen'' 0 1 Online 0)) (constructor 0)) = 150
   \<and> (\<exists>s'. run (replicate 150 (UpdateArm ''qwen'' 0 1 Online 0)) (constructor 0) = Inr s'
           \<and> length (coherenceHistory s') = 100
           \<and> coherenceHistory s'
               = drop 50 (pushed (replicate 150 (UpdateArm ''qwen'' 0 1 Online 0)) (constructor 0)))"
proof -
  have "''qwen'' \<in> fst ` set (arms (constructor 0))" by (simp add: constructor_def)
  then have "\<forall>c \<in> set (replicate 150 (UpdateArm ''qwen'' 0 1 Online 0)).
      \<exists>n p a h t. c = UpdateArm n p a h t \<and> n \<in> fst ` set (arms (constructor 0))"
    by simp
  from pushed_registered_updates[OF this]
  have h: "length (pushed (replicate 150 (UpdateArm ''qwen'' 0 1 Online 0)) (constructor 0)) = 150"
    by simp
  from C8_history_bound[OF h] h show ?thesis by blast
qed

section \<open>Which entries self-correction rewrites\<close>

lemma selfCorrect_arm_map_of_same:
  assumes "map_of (arms s) n = Some arm"
  shows "map_of (arms (selfCorrect_arm s n)) n
           = Some (arm\<lparr>ArmState.phase :=
                js_rem (ArmState.phase arm
                        + angleDifference (QueenState.phase (queen s) + 90) (ArmState.phase arm) * 0.1)
                       360\<rparr>)"
  using assms by (simp add: selfCorrect_arm_def Let_def update_conv')

lemma selfCorrect_arm_map_of_other:
  "k \<noteq> n \<Longrightarrow> map_of (arms (selfCorrect_arm s n)) k = map_of (arms s) k"
  by (simp add: selfCorrect_arm_def Let_def update_conv' split: option.split)

lemma selfCorrect_arm_keys: "map fst (arms (selfCorrect_arm s n)) = map fst (arms s)"
proof (cases "map_of (arms s) n")
  case None
  then show ?thesis by (simp add: selfCorrect_arm_def)
next
  case (Some arm)
  then have "(n, arm) \<in> set (arms s)" by (rule map_of_SomeD)
  then have "n \<in> fst ` set (arms s)" by force
  then have "map fst (AList.update n v (arms s)) = map fst (arms s)" for v
    by (simp add: update_keys)
  then show ?thesis using Some by (simp add: selfCorrect_arm_def Let_def)
qed

lemma foldl_selfCorrect_arm_keys: "map fst (arms (foldl selfCorrect_arm s ns)) = map fst (arms s)"
  by (induction ns arbitrary: s) (simp_all add: selfCorrect_arm_keys)

lemma foldl_selfCorrect_arm_other:
  "k \<notin> set ns \<Longrightarrow> map_of (arms (foldl selfCorrect_arm s ns)) k = map_of (arms s) k"
  by (induction ns arbitrary: s) (simp_all add: selfCorrect_arm_map_of_other)

lemma foldl_selfCorrect_arm_corrected:
  assumes "distinct ns" "k \<in> set ns" "map_of (arms s) k = Some arm"
  shows "map_of (arms (foldl selfCorrect_arm s ns)) k
           = Some (arm\<lparr>ArmState.phase :=
                js_rem (ArmState.phase arm
                        + angleDifference (QueenState.phase (queen s) + 90) (ArmState.phase arm) * 0.1)
                       360\<rparr>)"
  using assms
proof (induction ns arbitrary: s)
  case Nil
  then show ?case by simp
next
  case (Cons n ns)
  show ?case
  proof (cases "k = n")
    case True
    then have "k \<notin> set ns" using Cons.prems(1) by simp
    then have "map_of (arms (foldl selfCorrect_arm (selfCorrect_arm s n) ns)) k
                 = map_of (arms (selfCorrect_arm s n)) k"
      by (rule foldl_selfCorrect_arm_other)
    then show ?thesis using True Cons.prems(3) by (simp add: selfCorrect_arm_map_of_same)
  next
    case False
    then have "k \<in> set ns" "distinct ns" using Cons.prems by simp_all
    moreover have "map_of (arms (selfCorrect_arm s n)) k = Some arm"
      using False Cons.prems(3) by (simp add: selfCorrect_arm_map_of_other)
    ultimately show ?thesis
      using Cons.IH[of "selfCorrect_arm s n"] by (simp add: selfCorrect_arm_frame)
  qed
qed

lemma registry_ok_iff:
  "registry_ok s \<longleftrightarrow>
     distinct (map fst (arms s)) \<and> (\<forall>k a. map_of (arms s) k = Some a \<longrightarrow> name a = k)"
proof
  assume r: "registry_ok s"
  then have l: "\<forall>(k, a) \<in> set (arms s). name a = k"
    by (simp add: registry_ok_def list_all_iff)
  have "name a = k" if "map_of (arms s) k = Some a" for k a
    using map_of_SomeD[OF that] l by auto
  then show "distinct (map fst (arms s)) \<and> (\<forall>k a. map_of (arms s) k = Some a \<longrightarrow> name a = k)"
    using r by (simp add: registry_ok_def)
next
  assume a: "distinct (map fst (arms s)) \<and> (\<forall>k a. map_of (arms s) k = Some a \<longrightarrow> name a = k)"
  then have "name a = k" if "(k, a) \<in> set (arms s)" for k a
    using that by simp
  then show "registry_ok s" using a by (auto simp: registry_ok_def list_all_iff)
qed

lemma registry_ok_adjustPhaseCoherence:
  assumes "registry_ok s"
  shows "registry_ok (adjustPhaseCoherence s)"
proof -
  have "name a = k" if m: "map_of (arms (adjustPhaseCoherence s)) k = Some a" for k a
  proof -
    have "map_option name (map_of (arms (adjustPhaseCoherence s)) k)
            = map_option name (map_of (arms s) k)"
      by (rule adjustPhaseCoherence_proj) simp
    then obtain a0 where "map_of (arms s) k = Some a0" "name a0 = name a"
      using m by (cases "map_of (arms s) k") simp_all
    then show ?thesis using assms by (simp add: registry_ok_iff)
  qed
  then show ?thesis using assms by (simp add: registry_ok_iff adjustPhaseCoherence_keys)
qed

lemma registry_ok_selfCorrect_arm:
  assumes "registry_ok s"
  shows "registry_ok (selfCorrect_arm s n)"
proof -
  have "name a = k" if m: "map_of (arms (selfCorrect_arm s n)) k = Some a" for k a
  proof (cases "k = n")
    case False
    then show ?thesis using m assms by (simp add: selfCorrect_arm_map_of_other registry_ok_iff)
  next
    case True
    show ?thesis
    proof (cases "map_of (arms s) n")
      case None
      then show ?thesis using m assms by (simp add: selfCorrect_arm_def registry_ok_iff)
    next
      case (Some arm)
      then have "name arm = n" using assms by (simp add: registry_ok_iff)
      then show ?thesis using m True selfCorrect_arm_map_of_same[OF Some] by auto
    qed
  qed
  then show ?thesis using assms by (simp add: registry_ok_iff selfCorrect_arm_keys)
qed

lemma registry_ok_foldl_selfCorrect_arm:
  "registry_ok s \<Longrightarrow> registry_ok (foldl selfCorrect_arm s ns)"
  by (induction ns arbitrary: s) (simp_all add: registry_ok_selfCorrect_arm)

lemma registry_ok_selfCorrect: "registry_ok s \<Longrightarrow> registry_ok (selfCorrect s)"
  by (simp add: selfCorrect_def Let_def registry_ok_adjustPhaseCoherence
      registry_ok_foldl_selfCorrect_arm)

lemma registry_ok_funpow_selfCorrect: "registry_ok s \<Longrightarrow> registry_ok ((selfCorrect ^^ n) s)"
  by (induction n) (simp_all add: registry_ok_selfCorrect)

lemma affectedArms_registry:
  assumes "registry_ok s"
  shows "distinct (affectedArms (detectWobble s))"
    and "k \<in> set (affectedArms (detectWobble s)) \<Longrightarrow> \<exists>arm. map_of (arms s) k = Some arm"
proof -
  have l: "\<forall>(k, a) \<in> set (arms s). name a = k"
    using assms by (simp add: registry_ok_def list_all_iff)
  then have n: "map name (map snd (arms s)) = map fst (arms s)" by auto
  have "distinct (map name (map snd (arms s)))" using assms by (simp only: n registry_ok_def)
  then show "distinct (affectedArms (detectWobble s))"
    by (simp add: detectWobble_def Let_def distinct_map_filter)
  assume "k \<in> set (affectedArms (detectWobble s))"
  then obtain x where "x \<in> set (arms s)" "name (snd x) = k"
    by (auto simp: detectWobble_def Let_def)
  then have "(k, snd x) \<in> set (arms s)" using l by (cases x) auto
  then show "\<exists>arm. map_of (arms s) k = Some arm" by (rule weak_map_of_SomeI)
qed

section \<open>The parts of the write invariant that hold\<close>

text \<open>
  Claim C3 fails only where \<^verbatim>\<open>updateArmState\<close> is given a negative phase. The amplitude is
  kept in \<open>[0, 1]\<close> by every write, and \<^verbatim>\<open>selfCorrect\<close> keeps phases in \<open>[0, 360)\<close>.
\<close>

lemma foldl_amplitude_sum:
  "foldl (\<lambda>sum a. sum + amplitude a) acc xs = acc + sum_list (map amplitude xs)"
  by (induction xs arbitrary: acc) (simp_all add: add.assoc)

lemma set_update_subset: "set (AList.update k v al) \<subseteq> insert (k, v) (set al)"
  by (induction al) auto

lemma redistribute_arm_amplitude:
  assumes "0 \<le> r" "0 \<le> amplitude a" "amplitude a \<le> 1"
  shows "0 \<le> amplitude (redistribute_arm r a) \<and> amplitude (redistribute_arm r a) \<le> 1"
  using assms by (simp add: redistribute_arm_def)

lemma calculateTorqueRedistribution_amplitudes:
  assumes "\<forall>(k, a) \<in> set (arms s). 0 \<le> amplitude a \<and> amplitude a \<le> 1"
  shows "\<forall>(k, a) \<in> set (arms (calculateTorqueRedistribution s)). 0 \<le> amplitude a \<and> amplitude a \<le> 1"
proof -
  let ?deg = "filter (\<lambda>a. health a \<noteq> Online) (map snd (arms s))"
  let ?r = "foldl (\<lambda>sum a. sum + amplitude a) 0 ?deg
              / real (max (length (filter (\<lambda>a. health a = Online) (map snd (arms s)))) 1)"
  have "0 \<le> sum_list (map amplitude ?deg)"
    using assms by (intro sum_list_nonneg) auto
  then have r: "0 \<le> ?r" by (simp add: foldl_amplitude_sum)
  have "0 \<le> amplitude (redistribute_arm ?r a) \<and> amplitude (redistribute_arm ?r a) \<le> 1"
    if "(k, a) \<in> set (arms s)" for k a
    using that assms r by (intro redistribute_arm_amplitude) auto
  then show ?thesis
    using assms by (auto simp: calculateTorqueRedistribution_def Let_def)
qed

lemma adjustPhaseCoherence_via:
  "\<exists>s1. adjustPhaseCoherence s = calculateTorqueRedistribution s1 \<and> arms s1 = arms s"
  unfolding adjustPhaseCoherence_def Let_def
  by (rule exI, rule conjI, rule refl) simp

lemma adjustPhaseCoherence_amplitudes:
  assumes "\<forall>(k, a) \<in> set (arms s). 0 \<le> amplitude a \<and> amplitude a \<le> 1"
  shows "\<forall>(k, a) \<in> set (arms (adjustPhaseCoherence s)). 0 \<le> amplitude a \<and> amplitude a \<le> 1"
proof -
  obtain s1 where s1: "adjustPhaseCoherence s = calculateTorqueRedistribution s1" "arms s1 = arms s"
    using adjustPhaseCoherence_via by blast
  show ?thesis
    unfolding s1(1) using assms by (intro calculateTorqueRedistribution_amplitudes) (simp add: s1(2))
qed

text \<open>The amplitude part of claim C3 holds: a table whose amplitudes are all in \<open>[0, 1]\<close>
  still is after \<^verbatim>\<open>updateArmState\<close>, whatever amplitude is passed.\<close>

lemma updateArmState_amplitudes:
  assumes "\<forall>(k, a) \<in> set (arms s). 0 \<le> amplitude a \<and> amplitude a \<le> 1"
    and "updateArmState armName phase' amplitude' health' now s = Inr s'"
  shows "\<forall>(k, a) \<in> set (arms s'). 0 \<le> amplitude a \<and> amplitude a \<le> 1"
proof (cases "map_of (arms s) armName")
  case None
  then show ?thesis using assms by (simp add: updateArmState_def)
next
  case (Some arm)
  let ?arm' = "arm\<lparr>ArmState.phase := js_rem phase' 360, amplitude := max 0 (min 1 amplitude'),
                    health := health', lastUpdate := now\<rparr>"
  let ?s1 = "s\<lparr>arms := AList.update armName ?arm' (arms s)\<rparr>"
  have "\<forall>(k, a) \<in> set (arms ?s1). 0 \<le> amplitude a \<and> amplitude a \<le> 1"
    using assms(1) set_update_subset[of armName ?arm' "arms s"] by auto
  then have "\<forall>(k, a) \<in> set (arms (adjustPhaseCoherence ?s1)). 0 \<le> amplitude a \<and> amplitude a \<le> 1"
    by (rule adjustPhaseCoherence_amplitudes)
  moreover have "s' = adjustPhaseCoherence ?s1" using assms(2) Some by (simp add: updateArmState_def)
  ultimately show ?thesis by simp
qed

lemma correction_nonneg:
  assumes "0 \<le> p" "p < 360"
  shows "0 \<le> p + angleDifference 135 p * 0.1"
  using angleDifference_cases[of 135 p] assms by linarith

text \<open>The self-correction part of claim C3 holds on every state the program reaches: the
  phase of the queen is \<open>45\<close> from the constructor on (nothing writes it), and then a table
  whose phases are all in \<open>[0, 360)\<close> still is after \<^verbatim>\<open>selfCorrect\<close>.\<close>

lemma selfCorrect_phase_in_range:
  assumes "registry_ok s" and "QueenState.phase (queen s) = 45"
    and "\<And>k p. armPhase s k = Some p \<Longrightarrow> 0 \<le> p \<and> p < 360"
    and "armPhase (selfCorrect s) k = Some p"
  shows "0 \<le> p \<and> p < 360"
proof (cases "wobbleDetected (detectWobble s)")
  case False
  then show ?thesis using assms(3,4) by (simp add: selfCorrect_def Let_def)
next
  case True
  let ?A = "affectedArms (detectWobble s)"
  let ?s1 = "foldl selfCorrect_arm s ?A"
  have sc: "armPhase ?s1 k = Some p"
    using True assms(4) by (simp add: selfCorrect_def Let_def adjustPhaseCoherence_armPhase)
  show ?thesis
  proof (cases "k \<in> set ?A")
    case False
    then have "map_of (arms ?s1) k = map_of (arms s) k" by (rule foldl_selfCorrect_arm_other)
    then show ?thesis using sc assms(3)[of k p] by (simp add: armPhase_def)
  next
    case k: True
    then obtain arm where arm: "map_of (arms s) k = Some arm"
      using affectedArms_registry(2)[OF assms(1)] by blast
    define x where "x = ArmState.phase arm
                        + angleDifference (QueenState.phase (queen s) + 90) (ArmState.phase arm) * 0.1"
    have "map_of (arms ?s1) k = Some (arm\<lparr>ArmState.phase := js_rem x 360\<rparr>)"
      unfolding x_def
      using affectedArms_registry(1)[OF assms(1)] k arm by (rule foldl_selfCorrect_arm_corrected)
    then have p: "p = js_rem x 360" using sc by (simp add: armPhase_def)
    have "0 \<le> ArmState.phase arm \<and> ArmState.phase arm < 360"
      using assms(3)[of k "ArmState.phase arm"] arm by (simp add: armPhase_def)
    then have "0 \<le> ArmState.phase arm + angleDifference 135 (ArmState.phase arm) * 0.1"
      using correction_nonneg by blast
    then have "0 \<le> x" by (simp only: x_def assms(2)) simp
    then show ?thesis unfolding p by (intro js_rem_nonneg) simp_all
  qed
qed

end
